theory Spec2Isabelle
  imports Complex_Main
begin

section \<open>The AI study assistant (ai\_study.cpp)\<close>

text \<open>
  A shallow embedding of \<^verbatim>\<open>ai_study.cpp\<close>. Strings are byte lists, C++ exceptions are
  values of the type \<open>exn\<close> on the left of a sum, the standard input is an explicit stream
  state, and everything the program writes is a list of events. The network, the JSON text
  parser of the nlohmann library and the random number generator are parameters of the
  model (the record \<open>world\<close> below).

  The C++ type \<^verbatim>\<open>int\<close> is modelled by \<open>int\<close>. In the two number conversions
  (\<^verbatim>\<open>std::stoi\<close> and \<^verbatim>\<open>std::cin >> choice\<close>) the range check of \<^verbatim>\<open>int\<close> is written out.
  The arithmetic on the card index is that of the integers; it agrees with the 32-bit
  arithmetic of the program as long as the sum \<^verbatim>\<open>idx - 1 + size\<close> of the \<open>prev\<close> command
  stays within \<^verbatim>\<open>int\<close>, that is on decks of at most \<open>2 ^ 30\<close> cards, and the properties
  that depend on that sum carry this bound as a hypothesis.
\<close>

subsection \<open>Exceptions\<close>

datatype exn =
    runtime_error string
  | invalid_argument string
  | out_of_range string
  | json_parse_error string
  | json_type_error nat string

text \<open>
  \<^verbatim>\<open>ex.what()\<close> is a C string: the message up to its first NUL byte.
\<close>

definition c_str :: "string \<Rightarrow> string" where
  "c_str m = takeWhile (\<lambda>c. c \<noteq> CHR 0x00) m"

fun what :: "exn \<Rightarrow> string" where
  "what (runtime_error m) = c_str m"
| "what (invalid_argument m) = c_str m"
| "what (out_of_range m) = c_str m"
| "what (json_parse_error m) = c_str m"
| "what (json_type_error n m) = c_str m"

definition bind :: "exn + 'a \<Rightarrow> ('a \<Rightarrow> exn + 'b) \<Rightarrow> exn + 'b" where
  "bind r f = (case r of Inl e \<Rightarrow> Inl e | Inr v \<Rightarrow> f v)"

subsection \<open>The parts of \<^verbatim>\<open>std::string\<close> the program uses\<close>

text \<open>\<^verbatim>\<open>s.find(c)\<close>: the first position of \<open>c\<close>, \<open>None\<close> for \<^verbatim>\<open>npos\<close>.\<close>

fun find_char :: "char \<Rightarrow> string \<Rightarrow> nat option" where
  "find_char c [] = None"
| "find_char c (x # xs) = (if x = c then Some 0 else map_option Suc (find_char c xs))"

text \<open>\<^verbatim>\<open>s.rfind(c)\<close>: the last position of \<open>c\<close>, \<open>None\<close> for \<^verbatim>\<open>npos\<close>.\<close>

fun rfind_char :: "char \<Rightarrow> string \<Rightarrow> nat option" where
  "rfind_char c [] = None"
| "rfind_char c (x # xs) =
     (case rfind_char c xs of
        Some i \<Rightarrow> Some (Suc i)
      | None \<Rightarrow> if x = c then Some 0 else None)"

text \<open>\<^verbatim>\<open>s.substr(pos, len)\<close> throws \<^verbatim>\<open>std::out_of_range\<close> when \<open>pos\<close> is beyond the end.\<close>

definition substr :: "string \<Rightarrow> nat \<Rightarrow> nat \<Rightarrow> exn + string" where
  "substr s pos len =
     (if length s < pos then Inl (out_of_range ''basic_string::substr'')
      else Inr (take len (drop pos s)))"

subsection \<open>Extracting the JSON block from the model's reply\<close>

definition NoJsonObjectFound :: "string \<Rightarrow> exn" where
  "NoJsonObjectFound content =
     runtime_error (''Assistant response did not contain a valid JSON object:'' @ [CHR 0x0A] @ content)"

definition extract_json_block :: "string \<Rightarrow> exn + string" where
  "extract_json_block content =
     (let firstBrace = find_char (CHR ''{'') content;
          lastBrace = rfind_char (CHR ''}'') content
      in case firstBrace of
           None \<Rightarrow> Inl (NoJsonObjectFound content)
         | Some f \<Rightarrow>
             (case lastBrace of
                None \<Rightarrow> Inl (NoJsonObjectFound content)
              | Some l \<Rightarrow>
                  if l \<le> f then Inl (NoJsonObjectFound content)
                  else substr content f (l - f + 1)))"

subsection \<open>Characters and numbers\<close>

definition eol :: string where
  "eol = [CHR 0x0A]"

definition dq :: string where
  "dq = [CHR 0x22]"

definition en_dash :: string where
  "en_dash = [CHR 0xE2, CHR 0x80, CHR 0x93]"

definition INT_MAX :: int where
  "INT_MAX = 2147483647"

definition INT_MIN :: int where
  "INT_MIN = - 2147483648"

text \<open>The test \<^verbatim>\<open>c >= '0' && c <= '9'\<close>, on the character codes.\<close>

definition isdigit :: "char \<Rightarrow> bool" where
  "isdigit c \<longleftrightarrow> 48 \<le> (of_char c :: nat) \<and> (of_char c :: nat) \<le> 57"

text \<open>\<^verbatim>\<open>isspace\<close> in the C locale: space, and the codes 9 to 13.\<close>

definition isspace :: "char \<Rightarrow> bool" where
  "isspace c \<longleftrightarrow> (of_char c :: nat) = 32 \<or> (9 \<le> (of_char c :: nat) \<and> (of_char c :: nat) \<le> 13)"

definition digit_value :: "char \<Rightarrow> nat" where
  "digit_value c = of_char c - 48"

definition digits_value :: "string \<Rightarrow> nat" where
  "digits_value ds = foldl (\<lambda>a c. 10 * a + digit_value c) 0 ds"

text \<open>An optional sign in front of a number: whether it is a minus, and what follows it.\<close>

fun strip_sign :: "string \<Rightarrow> bool \<times> string" where
  "strip_sign [] = (False, [])"
| "strip_sign (c # cs) =
     (if c = CHR ''-'' then (True, cs)
      else if c = CHR ''+'' then (False, cs)
      else (False, c # cs))"

text \<open>
  \<^verbatim>\<open>std::stoi(str)\<close>, that is \<^verbatim>\<open>strtol\<close> in base 10 with the range of \<^verbatim>\<open>int\<close>: leading white
  space, an optional sign, then the longest run of digits; whatever follows is not looked
  at. No digit throws \<^verbatim>\<open>std::invalid_argument\<close>, a value outside \<^verbatim>\<open>int\<close> throws
  \<^verbatim>\<open>std::out_of_range\<close>.
\<close>

definition stoi :: "string \<Rightarrow> exn + int" where
  "stoi str =
     (case strip_sign (dropWhile isspace str) of
        (neg, s) \<Rightarrow>
          (let ds = takeWhile isdigit s in
           if ds = [] then Inl (invalid_argument ''stoi'')
           else
             (let v = (if neg then - int (digits_value ds) else int (digits_value ds)) in
              if v < INT_MIN \<or> INT_MAX < v then Inl (out_of_range ''stoi'') else Inr v)))"

text \<open>Decimal output of a number, as \<^verbatim>\<open>std::to_string\<close> and \<^verbatim>\<open>operator<<\<close> print it.\<close>

definition digit_char :: "nat \<Rightarrow> char" where
  "digit_char d = char_of (48 + d)"

fun dec :: "nat \<Rightarrow> string" where
  "dec n = (if n < 10 then [digit_char n] else dec (n div 10) @ [digit_char (n mod 10)])"

declare dec.simps [simp del]

definition to_string :: "int \<Rightarrow> string" where
  "to_string i = (if i < 0 then CHR ''-'' # dec (nat (- i)) else dec (nat i))"

text \<open>The operator \<^verbatim>\<open>%\<close> of C++ takes the sign of the dividend.\<close>

definition c_rem :: "int \<Rightarrow> int \<Rightarrow> int" where
  "c_rem a b = a - b * (sgn a * sgn b * (\<bar>a\<bar> div \<bar>b\<bar>))"

subsection \<open>The standard input\<close>

text \<open>
  \<^verbatim>\<open>std::cin\<close> is the bytes not read yet and the two state bits the program can observe.
  A stream is good when neither is set; \<^verbatim>\<open>!stream\<close> tests \<open>failbit\<close>.
\<close>

record istream =
  buf :: string
  eofbit :: bool
  failbit :: bool

definition good :: "istream \<Rightarrow> bool" where
  "good cin \<longleftrightarrow> \<not> eofbit cin \<and> \<not> failbit cin"

definition not_newline :: "char \<Rightarrow> bool" where
  "not_newline c \<longleftrightarrow> c \<noteq> CHR 0x0A"

text \<open>
  \<^verbatim>\<open>std::getline(cin, line)\<close>: \<open>None\<close> when the stream tests false afterwards. A stream that
  is not good only gets \<open>failbit\<close>. Otherwise the bytes up to the next newline are the
  line and the newline is dropped; reaching the end of the input sets \<open>eofbit\<close>, and
  \<open>failbit\<close> too when nothing at all was read.
\<close>

definition getline :: "istream \<Rightarrow> string option \<times> istream" where
  "getline cin =
     (if \<not> good cin then (None, cin\<lparr>failbit := True\<rparr>)
      else
        (let line = takeWhile not_newline (buf cin) in
         case dropWhile not_newline (buf cin) of
           [] \<Rightarrow>
             if line = [] then (None, cin\<lparr>buf := [], eofbit := True, failbit := True\<rparr>)
             else (Some line, cin\<lparr>buf := [], eofbit := True\<rparr>)
         | c # rest \<Rightarrow> (Some line, cin\<lparr>buf := rest\<rparr>)))"

text \<open>\<^verbatim>\<open>cin.ignore(numeric_limits<streamsize>::max(), '\n')\<close>: drops the rest of the line.\<close>

definition ignore_line :: "istream \<Rightarrow> istream" where
  "ignore_line cin =
     (if \<not> good cin then cin\<lparr>failbit := True\<rparr>
      else
        (case dropWhile not_newline (buf cin) of
           [] \<Rightarrow> cin\<lparr>buf := [], eofbit := True\<rparr>
         | c # rest \<Rightarrow> cin\<lparr>buf := rest\<rparr>))"

text \<open>
  \<^verbatim>\<open>cin >> n\<close> for an \<^verbatim>\<open>int\<close> holding \<open>v\<close>: the new value and stream. When the stream is
  not good, or ends within the leading white space, nothing is extracted and \<open>n\<close> keeps
  its value. Otherwise an optional sign and the digits after it are read; with no digit
  \<open>n\<close> becomes 0, out of range it becomes the nearest bound, and both set \<open>failbit\<close>
  (the rule since C++11).
\<close>

definition extract_int :: "int \<Rightarrow> istream \<Rightarrow> int \<times> istream" where
  "extract_int v cin =
     (if \<not> good cin then (v, cin\<lparr>failbit := True\<rparr>)
      else
        (let s = dropWhile isspace (buf cin) in
         if s = [] then (v, cin\<lparr>buf := [], eofbit := True, failbit := True\<rparr>)
         else
           (case strip_sign s of
              (neg, s1) \<Rightarrow>
                (let ds = takeWhile isdigit s1;
                     rest = dropWhile isdigit s1;
                     cin1 = cin\<lparr>buf := rest, eofbit := (rest = [])\<rparr>;
                     n = (if neg then - int (digits_value ds) else int (digits_value ds))
                 in if ds = [] then (0, cin1\<lparr>failbit := True\<rparr>)
                    else if n < INT_MIN then (INT_MIN, cin1\<lparr>failbit := True\<rparr>)
                    else if INT_MAX < n then (INT_MAX, cin1\<lparr>failbit := True\<rparr>)
                    else (n, cin1)))))"

subsection \<open>JSON values of the nlohmann library\<close>

datatype json =
    JNull
  | JBool bool
  | JInt int
  | JUnsigned nat
  | JFloat real
  | JString string
  | JArray "json list"
  | JObject "(string \<times> json) list"

fun type_name :: "json \<Rightarrow> string" where
  "type_name JNull = ''null''"
| "type_name (JBool b) = ''boolean''"
| "type_name (JString s) = ''string''"
| "type_name (JArray xs) = ''array''"
| "type_name (JObject m) = ''object''"
| "type_name j = ''number''"

text \<open>\<^verbatim>\<open>j.find(key)\<close> on an object; every other value has no keys.\<close>

fun find_key :: "json \<Rightarrow> string \<Rightarrow> json option" where
  "find_key (JObject m) key = map_of m key"
| "find_key j key = None"

definition contains :: "json \<Rightarrow> string \<Rightarrow> bool" where
  "contains j key \<longleftrightarrow> find_key j key \<noteq> None"

fun is_string :: "json \<Rightarrow> bool" where
  "is_string (JString s) = True"
| "is_string j = False"

fun is_array :: "json \<Rightarrow> bool" where
  "is_array (JArray xs) = True"
| "is_array j = False"

text \<open>\<^verbatim>\<open>j.get<std::string>()\<close> throws \<^verbatim>\<open>type_error\<close> 302 on anything but a string.\<close>

fun get_string :: "json \<Rightarrow> exn + string" where
  "get_string (JString s) = Inr s"
| "get_string j =
     Inl (json_type_error 302
       (''[json.exception.type_error.302] type must be string, but is '' @ type_name j))"

text \<open>
  \<^verbatim>\<open>j.value(key, "")\<close>: the default when the key is missing, the string when the key holds
  one; \<^verbatim>\<open>type_error\<close> 306 when \<open>j\<close> is not an object and 302 when the key holds another
  type.
\<close>

fun value_string :: "json \<Rightarrow> string \<Rightarrow> string \<Rightarrow> exn + string" where
  "value_string (JObject m) key dflt =
     (case map_of m key of None \<Rightarrow> Inr dflt | Some v \<Rightarrow> get_string v)"
| "value_string j key dflt =
     Inl (json_type_error 306
       (''[json.exception.type_error.306] cannot use value() with '' @ type_name j))"

text \<open>
  \<^verbatim>\<open>j[key]\<close> and \<^verbatim>\<open>j[i]\<close> on a value that is not \<^verbatim>\<open>const\<close>: a null, a missing key and an
  index beyond the end all read as null (the library inserts it); any other type throws
  \<^verbatim>\<open>type_error\<close> 305.
\<close>

fun index_key :: "json \<Rightarrow> string \<Rightarrow> exn + json" where
  "index_key JNull key = Inr JNull"
| "index_key (JObject m) key = Inr (case map_of m key of None \<Rightarrow> JNull | Some v \<Rightarrow> v)"
| "index_key j key =
     Inl (json_type_error 305
       (''[json.exception.type_error.305] cannot use operator[] with a string argument with ''
        @ type_name j))"

fun index_num :: "json \<Rightarrow> nat \<Rightarrow> exn + json" where
  "index_num JNull i = Inr JNull"
| "index_num (JArray xs) i = Inr (if i < length xs then xs ! i else JNull)"
| "index_num j i =
     Inl (json_type_error 305
       (''[json.exception.type_error.305] cannot use operator[] with a numeric argument with ''
        @ type_name j))"

text \<open>A loop that converts every element and stops at the first exception.\<close>

fun for_each :: "('a \<Rightarrow> exn + 'b) \<Rightarrow> 'a list \<Rightarrow> exn + 'b list" where
  "for_each f [] = Inr []"
| "for_each f (x # xs) = bind (f x) (\<lambda>y. bind (for_each f xs) (\<lambda>ys. Inr (y # ys)))"

subsection \<open>The outside world\<close>

text \<open>
  What the program gets from its environment: the API key, whether \<^verbatim>\<open>curl_easy_init\<close>
  gives a handle, the serialisation of the request body for a prompt (\<^verbatim>\<open>body.dump()\<close>
  throws on text that is not UTF-8), the HTTP exchange for an API key and a request body
  (the curl error text, or the status code and the response), the JSON text parser
  \<^verbatim>\<open>json::parse\<close>, and the random numbers: \<open>random_draws w a b k\<close> is what the call number
  \<open>k\<close> of \<^verbatim>\<open>dist(rng)\<close> returns for a \<^verbatim>\<open>uniform_int_distribution<int> dist(a, b)\<close>.
\<close>

record world =
  getenv_OPENAI_API_KEY :: "string option"
  curl_easy_init_ok :: bool
  json_dump_body :: "string \<Rightarrow> exn + string"
  curl_easy_perform :: "string \<Rightarrow> string \<Rightarrow> string + (int \<times> string)"
  json_parse :: "string \<Rightarrow> exn + json"
  random_draws :: "int \<Rightarrow> int \<Rightarrow> nat \<Rightarrow> int"

subsection \<open>Data structs\<close>

record Definition =
  def_term :: string
  def_definition :: string

record SummaryResult =
  summary :: string
  keyPoints :: "string list"
  definitions :: "Definition list"

record Flashcard =
  question :: string
  answer :: string

record FlashcardResult =
  flashcards :: "Flashcard list"

subsection \<open>Calling the chat completions API\<close>

definition call_openai_chat :: "world \<Rightarrow> string \<Rightarrow> exn + string" where
  "call_openai_chat w prompt =
     (case getenv_OPENAI_API_KEY w of
        None \<Rightarrow> Inl (runtime_error ''OPENAI_API_KEY environment variable not set.'')
      | Some apiKey \<Rightarrow>
          if \<not> curl_easy_init_ok w then Inl (runtime_error ''Failed to init curl'')
          else
            bind (json_dump_body w prompt) (\<lambda>bodyStr.
              case curl_easy_perform w apiKey bodyStr of
                Inl strerror \<Rightarrow>
                  Inl (runtime_error (''curl_easy_perform() failed: '' @ strerror))
              | Inr (httpCode, readBuffer) \<Rightarrow>
                  if httpCode < 200 \<or> 300 \<le> httpCode then
                    Inl (runtime_error (''OpenAI API returned HTTP code '' @ to_string httpCode
                           @ eol @ ''Response: '' @ readBuffer))
                  else Inr readBuffer))"

subsection \<open>The assistant's message content\<close>

text \<open>The text of one part of a content array: parts without a string \<^verbatim>\<open>text\<close> add nothing.\<close>

definition part_text :: "json \<Rightarrow> string" where
  "part_text part =
     (case find_key part ''text'' of
        None \<Rightarrow> []
      | Some t \<Rightarrow> (case get_string t of Inl e \<Rightarrow> [] | Inr s \<Rightarrow> s))"

text \<open>
  \<^verbatim>\<open>resJson["choices"][0]["message"]["content"]\<close> and the branches on its type, the same
  lines in \<^verbatim>\<open>summarize_content\<close> and in \<^verbatim>\<open>generate_flashcards\<close>.
\<close>

definition message_content :: "json \<Rightarrow> exn + string" where
  "message_content resJson =
     bind (index_key resJson ''choices'') (\<lambda>choices.
     bind (index_num choices 0) (\<lambda>choice0.
     bind (index_key choice0 ''message'') (\<lambda>message.
     bind (index_key message ''content'') (\<lambda>msgContent.
       case msgContent of
         JString s \<Rightarrow> Inr s
       | JArray parts \<Rightarrow> Inr (concat (map part_text parts))
       | _ \<Rightarrow> Inl (runtime_error ''Unexpected content format in OpenAI response.'')))))"

subsection \<open>Summary\<close>

definition summary_prompt :: string where
  "summary_prompt =
     eol @
     ''You are an AI study assistant.'' @ eol @
     eol @
     ''TASK:'' @ eol @
     ''1. Read the following text.'' @ eol @
     ''2. Write a concise summary (150'' @ en_dash @ ''250 words) in simple language.'' @ eol @
     ''3. List 3'' @ en_dash @ ''5 key points.'' @ eol @
     ''4. If there are definitions, include them in your own words.'' @ eol @
     eol @
     ''Return ONLY valid JSON with this structure:'' @ eol @
     ''{'' @ eol @
     ''  '' @ dq @ ''summary'' @ dq @ '': '' @ dq @ ''string'' @ dq @ '','' @ eol @
     ''  '' @ dq @ ''key_points'' @ dq @ '': ['' @ dq @ ''string'' @ dq @ '', '' @ dq @ ''string'' @ dq @ ''],'' @ eol @
     ''  '' @ dq @ ''definitions'' @ dq @ '': ['' @ eol @
     ''    {'' @ dq @ ''term'' @ dq @ '': '' @ dq @ ''string'' @ dq @ '', '' @ dq @ ''definition'' @ dq @ '': '' @ dq @ ''string'' @ dq @ ''}'' @ eol @
     ''  ]'' @ eol @
     ''}'' @ eol @
     eol @
     ''TEXT:'' @ eol"

text \<open>One element of \<^verbatim>\<open>definitions\<close>.\<close>

definition definition_of_json :: "json \<Rightarrow> exn + Definition" where
  "definition_of_json d =
     bind (value_string d ''term'' []) (\<lambda>t.
     bind (value_string d ''definition'' []) (\<lambda>df.
       Inr \<lparr>def_term = t, def_definition = df\<rparr>))"

text \<open>An array under \<open>key\<close>, each element converted by \<open>f\<close>; nothing when the key is
  missing or holds no array.\<close>

definition array_field :: "json \<Rightarrow> string \<Rightarrow> (json \<Rightarrow> exn + 'a) \<Rightarrow> exn + 'a list" where
  "array_field j key f =
     (case find_key j key of
        Some (JArray xs) \<Rightarrow> for_each f xs
      | _ \<Rightarrow> Inr [])"

text \<open>Filling in the \<^verbatim>\<open>SummaryResult\<close> from the parsed reply.\<close>

definition summary_of_json :: "json \<Rightarrow> exn + SummaryResult" where
  "summary_of_json summaryJson =
     bind (value_string summaryJson ''summary'' []) (\<lambda>s.
     bind (array_field summaryJson ''key_points'' get_string) (\<lambda>kps.
     bind (array_field summaryJson ''definitions'' definition_of_json) (\<lambda>defs.
       Inr \<lparr>summary = s, keyPoints = kps, definitions = defs\<rparr>)))"

definition summarize_content :: "world \<Rightarrow> string \<Rightarrow> exn + SummaryResult" where
  "summarize_content w text =
     bind (call_openai_chat w (summary_prompt @ text)) (\<lambda>rawResponse.
     bind (json_parse w rawResponse) (\<lambda>resJson.
     bind (message_content resJson) (\<lambda>content.
     bind (extract_json_block content) (\<lambda>jsonText.
     bind (json_parse w jsonText) summary_of_json))))"

subsection \<open>Flashcards\<close>

definition flashcard_prompt :: string where
  "flashcard_prompt =
     eol @
     ''You are an AI that creates study flashcards.'' @ eol @
     eol @
     ''Given the TEXT below, create 10'' @ en_dash @ ''20 flashcards that help a student study.'' @ eol @
     eol @
     ''Rules:'' @ eol @
     ''- Questions should be clear and specific.'' @ eol @
     ''- Answers should be brief (1'' @ en_dash @ ''3 sentences).'' @ eol @
     ''- Mix definitions, concepts, and reasoning questions.'' @ eol @
     eol @
     ''Return ONLY valid JSON with this structure:'' @ eol @
     ''{'' @ eol @
     ''  '' @ dq @ ''flashcards'' @ dq @ '': ['' @ eol @
     ''    {'' @ dq @ ''question'' @ dq @ '': '' @ dq @ ''string'' @ dq @ '', '' @ dq @ ''answer'' @ dq @ '': '' @ dq @ ''string'' @ dq @ ''}'' @ eol @
     ''  ]'' @ eol @
     ''}'' @ eol @
     eol @
     ''TEXT:'' @ eol"

definition flashcard_of_json :: "json \<Rightarrow> exn + Flashcard" where
  "flashcard_of_json fc =
     bind (value_string fc ''question'' []) (\<lambda>q.
     bind (value_string fc ''answer'' []) (\<lambda>a.
       Inr \<lparr>question = q, answer = a\<rparr>))"

definition flashcards_of_json :: "json \<Rightarrow> exn + FlashcardResult" where
  "flashcards_of_json fcJson =
     bind (array_field fcJson ''flashcards'' flashcard_of_json) (\<lambda>cards.
       Inr \<lparr>flashcards = cards\<rparr>)"

definition generate_flashcards :: "world \<Rightarrow> string \<Rightarrow> exn + FlashcardResult" where
  "generate_flashcards w text =
     bind (call_openai_chat w (flashcard_prompt @ text)) (\<lambda>rawResponse.
     bind (json_parse w rawResponse) (\<lambda>resJson.
     bind (message_content resJson) (\<lambda>content.
     bind (extract_json_block content) (\<lambda>jsonText.
     bind (json_parse w jsonText) flashcards_of_json))))"

subsection \<open>What the program writes and does\<close>

datatype event =
    Stdout string
  | Stderr string
  | curl_global_init
  | curl_global_cleanup
  | out_of_bounds_read

definition clear_screen :: "event list" where
  "clear_screen = [Stdout ([CHR 0x1B] @ ''[2J'' @ [CHR 0x1B] @ ''[H'')]"

definition display_card :: "Flashcard \<Rightarrow> int \<Rightarrow> int \<Rightarrow> bool \<Rightarrow> event list" where
  "display_card crd index n showAns =
     clear_screen @
     [Stdout (''Flashcard '' @ to_string (index + 1) @ ''/'' @ to_string n @ eol),
      Stdout (''-------------------------'' @ eol),
      Stdout (''Q: '' @ question crd @ eol @ eol),
      (if showAns then Stdout (''A: '' @ answer crd @ eol @ eol)
       else Stdout (''A: [hidden] (press '' @ [CHR 0x27] @ ''f'' @ [CHR 0x27] @ '' to flip)''
                    @ eol @ eol)),
      Stdout (''Commands: [f]lip  [n]ext  [p]rev  [r]andom  [j]ump <num>  [q]uit'' @ eol)]"

subsection \<open>The flashcard viewer\<close>

text \<open>
  The variables of the loop: the index of the current card, whether its answer shows,
  and the generator: \<open>rng st a b k\<close> is what a distribution over \<open>a..b\<close> draws from it
  at its use number \<open>k\<close> from now.
\<close>

record viewer_state =
  idx :: int
  showAnswer :: bool
  rng :: "int \<Rightarrow> int \<Rightarrow> nat \<Rightarrow> int"

datatype step = Continue viewer_state | Break

definition is_blank :: "char \<Rightarrow> bool" where
  "is_blank c \<longleftrightarrow> c = CHR '' '' \<or> c = CHR 0x09"

text \<open>Trimming the leading spaces and tabs; a line of nothing else stays as it is.\<close>

definition trim_leading :: "string \<Rightarrow> string" where
  "trim_leading cmd = (if dropWhile is_blank cmd = [] then cmd else dropWhile is_blank cmd)"

text \<open>The two places that set the index from a number \<open>t\<close> read from the line.\<close>

definition jump_to :: "int \<Rightarrow> viewer_state \<Rightarrow> int \<Rightarrow> viewer_state" where
  "jump_to N st t =
     (if 1 \<le> t \<and> t \<le> N then st\<lparr>idx := t - 1, showAnswer := False\<rparr> else st)"

text \<open>
  One pass through the body of the loop after a line was read, on a deck of \<open>N\<close> cards:
  the state for the next pass, or \<open>Break\<close>.
\<close>

definition viewer_step :: "int \<Rightarrow> viewer_state \<Rightarrow> string \<Rightarrow> step" where
  "viewer_step N st line =
     (if line = [] then Continue st
      else
        (let cmd = trim_leading line in
         if cmd = ''f'' \<or> cmd = ''flip'' then
           Continue (st\<lparr>showAnswer := \<not> showAnswer st\<rparr>)
         else if cmd = ''n'' \<or> cmd = ''next'' then
           Continue (st\<lparr>idx := c_rem (idx st + 1) N, showAnswer := False\<rparr>)
         else if cmd = ''p'' \<or> cmd = ''prev'' then
           Continue (st\<lparr>idx := c_rem (idx st - 1 + N) N, showAnswer := False\<rparr>)
         else if cmd = ''r'' \<or> cmd = ''random'' then
           Continue (st\<lparr>idx := rng st 0 (N - 1) 0, showAnswer := False,
                        rng := (\<lambda>a b k. rng st a b (Suc k))\<rparr>)
         else if 2 < length cmd \<and> (take 1 cmd = ''j'' \<or> take 4 cmd = ''jump'') then
           (let numstr = filter (\<lambda>c. isdigit c \<or> c = CHR ''-'') cmd in
            if numstr \<noteq> [] then
              (case stoi numstr of
                 Inl e \<Rightarrow> Continue st
               | Inr t \<Rightarrow> Continue (jump_to N st t))
            else Continue st)
         else if cmd = ''q'' \<or> cmd = ''quit'' then Break
         else
           (case stoi cmd of
              Inl e \<Rightarrow> Continue st
            | Inr t \<Rightarrow> Continue (jump_to N st t))))"

lemma getline_shorter:
  assumes "getline cin = (Some line, cin')"
  shows "length (buf cin') < length (buf cin)"
proof (cases "dropWhile not_newline (buf cin)")
  case Nil
  from assms have "takeWhile not_newline (buf cin) \<noteq> [] \<and> buf cin' = []"
    unfolding getline_def Let_def Nil list.case by (auto split: if_splits)
  then show ?thesis by (cases "buf cin") auto
next
  case (Cons c rest)
  from assms have "buf cin' = rest"
    unfolding getline_def Let_def Cons list.case by (auto split: if_splits)
  moreover have "length (dropWhile not_newline (buf cin)) \<le> length (buf cin)"
    by (rule length_dropWhile_le)
  ultimately show ?thesis using Cons by simp
qed

text \<open>
  The loop of \<^verbatim>\<open>run_flashcard_viewer\<close>: what it writes and the input it leaves. The read of
  \<^verbatim>\<open>deck.flashcards[idx]\<close> outside the deck, which C++ leaves undefined, is the event
  \<open>out_of_bounds_read\<close> and ends the run.
\<close>

function viewer_loop :: "Flashcard list \<Rightarrow> viewer_state \<Rightarrow> istream \<Rightarrow> event list \<times> istream" where
  "viewer_loop deck st cin =
     (if idx st < 0 \<or> int (length deck) \<le> idx st then ([out_of_bounds_read], cin)
      else
        (let shown = display_card (deck ! nat (idx st)) (idx st) (int (length deck))
                       (showAnswer st)
         in case getline cin of
              (None, cin') \<Rightarrow> (shown, cin')
            | (Some cmd, cin') \<Rightarrow>
                (case viewer_step (int (length deck)) st cmd of
                   Break \<Rightarrow> (shown, cin')
                 | Continue st' \<Rightarrow>
                     (case viewer_loop deck st' cin' of
                        (evs, cin'') \<Rightarrow> (shown @ evs, cin'')))))"
  by pat_completeness auto
termination
  by (relation "measure (\<lambda>(deck, st, cin). length (buf cin))")
     (auto dest: getline_shorter [OF sym])

declare viewer_loop.simps [simp del]

definition run_flashcard_viewer ::
    "FlashcardResult \<Rightarrow> (int \<Rightarrow> int \<Rightarrow> nat \<Rightarrow> int) \<Rightarrow> istream \<Rightarrow> event list \<times> istream"
    where
  "run_flashcard_viewer deck draws cin =
     (if flashcards deck = [] then ([Stdout (''No flashcards to view.'' @ eol)], cin)
      else
        (case viewer_loop (flashcards deck) \<lparr>idx = 0, showAnswer = False, rng = draws\<rparr> cin of
           (evs, cin') \<Rightarrow> (evs @ clear_screen, cin')))"

subsection \<open>The session\<close>

text \<open>
  The loop that continues the study text over the next line while the text ends in a
  backslash.
\<close>

function read_continuation :: "string \<Rightarrow> istream \<Rightarrow> string \<times> istream" where
  "read_continuation userText cin =
     (if userText \<noteq> [] \<and> last userText = CHR 0x5C then
        (let userText1 = butlast userText @ [CHR 0x0A] in
         case getline cin of
           (None, cin') \<Rightarrow> (userText1, cin')
         | (Some line, cin') \<Rightarrow>
             if line = [] then (userText1, cin')
             else read_continuation (userText1 @ line) cin')
      else (userText, cin))"
  by pat_completeness auto
termination
  by (relation "measure (\<lambda>(userText, cin). length (buf cin))")
     (auto dest: getline_shorter [OF sym])

declare read_continuation.simps [simp del]

text \<open>How control leaves the \<^verbatim>\<open>try\<close> block of \<^verbatim>\<open>main\<close>.\<close>

datatype outcome = Returned int | Threw exn | Completed

definition print_summary :: "SummaryResult \<Rightarrow> event list" where
  "print_summary s =
     [Stdout (eol @ ''=== SUMMARY ==='' @ eol @ summary s @ eol @ eol),
      Stdout (''Key points:'' @ eol)]
     @ map (\<lambda>kp. Stdout (''- '' @ kp @ eol)) (keyPoints s)
     @ [Stdout (eol @ ''Definitions:'' @ eol)]
     @ map (\<lambda>d. Stdout (def_term d @ '': '' @ def_definition d @ eol)) (definitions s)"

definition summary_flow :: "world \<Rightarrow> int \<Rightarrow> string \<Rightarrow> exn + event list" where
  "summary_flow w choice userText =
     (if choice = 1 \<or> choice = 3 then
        bind (summarize_content w userText) (\<lambda>s. Inr (print_summary s))
      else Inr [])"

definition flashcard_flow :: "world \<Rightarrow> int \<Rightarrow> string \<Rightarrow> istream \<Rightarrow> exn + event list" where
  "flashcard_flow w choice userText cin =
     (if choice = 2 \<or> choice = 3 then
        bind (generate_flashcards w userText) (\<lambda>f.
          Inr (fst (run_flashcard_viewer f (random_draws w) cin)))
      else Inr [])"

definition menu :: "event list" where
  "menu =
     [Stdout (''What do you want?'' @ eol),
      Stdout (''1 = Summary only'' @ eol),
      Stdout (''2 = Flashcards only'' @ eol),
      Stdout (''3 = Both summary + flashcards'' @ eol),
      Stdout ''Enter choice (1/2/3): '']"

definition paste_notice :: "event list" where
  "paste_notice =
     [Stdout (eol @ ''Paste your study text below.'' @ eol),
      Stdout (''When you'' @ [CHR 0x27] @ ''re done, press Enter on an empty line to finish input.''
              @ eol),
      Stdout (''Then press Enter.'' @ eol @ eol)]"

text \<open>
  Reading the study text: the text and the input left, or the events of the early exit
  (the message and the cleanup before \<^verbatim>\<open>return 0\<close>).
\<close>

definition read_study_text :: "istream \<Rightarrow> event list + (string \<times> istream)" where
  "read_study_text cin =
     (case getline cin of
        (None, cin1) \<Rightarrow> Inl [Stderr (''No input detected. Exiting.'' @ eol), curl_global_cleanup]
      | (Some line, cin1) \<Rightarrow>
          if line = [] then Inl [Stderr (''No text entered. Exiting.'' @ eol), curl_global_cleanup]
          else
            (case read_continuation line cin1 of
               (userText, cin2) \<Rightarrow>
                 if userText = [] then
                   Inl [Stderr (''No text entered. Exiting.'' @ eol), curl_global_cleanup]
                 else Inr (userText, cin2)))"

text \<open>The \<^verbatim>\<open>try\<close> block: its events and how it ends.\<close>

definition main_try :: "world \<Rightarrow> istream \<Rightarrow> event list \<times> outcome" where
  "main_try w cin =
     (case extract_int 3 cin of
        (choice, cin1) \<Rightarrow>
          (case read_study_text (ignore_line cin1) of
             Inl exit_events \<Rightarrow> (menu @ paste_notice @ exit_events, Returned 0)
           | Inr (userText, cin2) \<Rightarrow>
               (case summary_flow w choice userText of
                  Inl e \<Rightarrow> (menu @ paste_notice, Threw e)
                | Inr out1 \<Rightarrow>
                    (case flashcard_flow w choice userText cin2 of
                       Inl e \<Rightarrow> (menu @ paste_notice @ out1, Threw e)
                     | Inr out2 \<Rightarrow> (menu @ paste_notice @ out1 @ out2, Completed)))))"

text \<open>The program on the bytes of its standard input: what it does and its exit status.\<close>

definition main :: "world \<Rightarrow> string \<Rightarrow> event list \<times> int" where
  "main w stdin =
     (case main_try w \<lparr>buf = stdin, eofbit = False, failbit = False\<rparr> of
        (evs, Returned status) \<Rightarrow> (curl_global_init # evs, status)
      | (evs, Threw ex) \<Rightarrow>
          (curl_global_init # evs @ [Stderr (''Error: '' @ what ex @ eol), curl_global_cleanup], 0)
      | (evs, Completed) \<Rightarrow> (curl_global_init # evs @ [curl_global_cleanup], 0))"

subsection \<open>Notions of the specification\<close>

text \<open>What the claims call the first and the last occurrence of a character.\<close>

definition is_first :: "char \<Rightarrow> string \<Rightarrow> nat \<Rightarrow> bool" where
  "is_first c s i \<longleftrightarrow> i < length s \<and> s ! i = c \<and> (\<forall>k<i. s ! k \<noteq> c)"

definition is_last :: "char \<Rightarrow> string \<Rightarrow> nat \<Rightarrow> bool" where
  "is_last c s j \<longleftrightarrow> j < length s \<and> s ! j = c \<and> (\<forall>k<length s. j < k \<longrightarrow> s ! k \<noteq> c)"

text \<open>The characters at the positions \<open>i, ..., j\<close> of \<open>s\<close>.\<close>

definition inclusive_substring :: "string \<Rightarrow> nat \<Rightarrow> nat \<Rightarrow> string" where
  "inclusive_substring s i j = map (\<lambda>k. s ! k) [i..<Suc j]"

text \<open>The contract of \<^verbatim>\<open>std::uniform_int_distribution\<close>: a draw lies within the bounds.\<close>

definition uniform_ok :: "(int \<Rightarrow> int \<Rightarrow> nat \<Rightarrow> int) \<Rightarrow> bool" where
  "uniform_ok g \<longleftrightarrow> (\<forall>a b k. a \<le> b \<longrightarrow> a \<le> g a b k \<and> g a b k \<le> b)"

text \<open>The invariant of the viewer's loop on a deck of \<open>N\<close> cards.\<close>

definition index_ok :: "int \<Rightarrow> viewer_state \<Rightarrow> bool" where
  "index_ok N st \<longleftrightarrow> 0 \<le> idx st \<and> idx st < N \<and> uniform_ok (rng st)"

text \<open>A sequence of input lines given to the viewer one after the other.\<close>

fun viewer_run :: "int \<Rightarrow> viewer_state \<Rightarrow> string list \<Rightarrow> step" where
  "viewer_run N st [] = Continue st"
| "viewer_run N st (line # lines) =
     (case viewer_step N st line of
        Break \<Rightarrow> Break
      | Continue st' \<Rightarrow> viewer_run N st' lines)"

text \<open>The command words of the viewer's table.\<close>

definition literal_commands :: "string list" where
  "literal_commands =
     [''f'', ''flip'', ''n'', ''next'', ''p'', ''prev'', ''r'', ''random'', ''q'', ''quit'']"

text \<open>The \<open><num>\<close> of the table: digits, with an optional sign in front.\<close>

definition is_number :: "string \<Rightarrow> bool" where
  "is_number num \<longleftrightarrow>
     (case strip_sign num of (neg, ds) \<Rightarrow> ds \<noteq> [] \<and> list_all isdigit ds)"

text \<open>
  The command forms the table lists, after the leading blanks: a command word,
  \<open>j <num>\<close>, \<open>jump <num>\<close> or a bare \<open><num>\<close>.
\<close>

definition listed_command :: "string \<Rightarrow> bool" where
  "listed_command line \<longleftrightarrow>
     (let cmd = trim_leading line in
      List.member literal_commands cmd
      \<or> (take 2 cmd = ''j '' \<and> is_number (drop 2 cmd))
      \<or> (take 5 cmd = ''jump '' \<and> is_number (drop 5 cmd))
      \<or> is_number cmd)"

text \<open>
  The text the viewer reads a card number from: the digits and minus signs of a line of
  more than two characters that starts with \<open>j\<close>, the whole line otherwise.
\<close>

definition number_text :: "string \<Rightarrow> string" where
  "number_text cmd =
     (if 2 < length cmd \<and> take 1 cmd = ''j'' then filter (\<lambda>c. isdigit c \<or> c = CHR ''-'') cmd
      else cmd)"

text \<open>
  The shape the parsers accept. A field that may be missing but, when present, holds a
  string; the elements of an array field (none when the field is missing or no array); the
  string of a field (empty when it is missing).
\<close>

fun is_object :: "json \<Rightarrow> bool" where
  "is_object (JObject m) = True"
| "is_object j = False"

definition string_or_missing :: "json \<Rightarrow> string \<Rightarrow> bool" where
  "string_or_missing j key \<longleftrightarrow>
     (case find_key j key of None \<Rightarrow> True | Some v \<Rightarrow> is_string v)"

definition array_items :: "json \<Rightarrow> string \<Rightarrow> json list" where
  "array_items j key = (case find_key j key of Some (JArray xs) \<Rightarrow> xs | _ \<Rightarrow> [])"

fun string_of :: "json \<Rightarrow> string" where
  "string_of (JString s) = s"
| "string_of j = []"

definition string_field :: "json \<Rightarrow> string \<Rightarrow> string" where
  "string_field j key = (case find_key j key of None \<Rightarrow> [] | Some v \<Rightarrow> string_of v)"

definition summary_well_typed :: "json \<Rightarrow> bool" where
  "summary_well_typed j \<longleftrightarrow>
     is_object j \<and> string_or_missing j ''summary''
     \<and> list_all is_string (array_items j ''key_points'')
     \<and> list_all (\<lambda>d. is_object d \<and> string_or_missing d ''term''
                      \<and> string_or_missing d ''definition'')
          (array_items j ''definitions'')"

definition flashcards_well_typed :: "json \<Rightarrow> bool" where
  "flashcards_well_typed j \<longleftrightarrow>
     list_all (\<lambda>fc. is_object fc \<and> string_or_missing fc ''question''
                      \<and> string_or_missing fc ''answer'')
       (array_items j ''flashcards'')"

definition is_type_error :: "exn + 'a \<Rightarrow> bool" where
  "is_type_error r \<longleftrightarrow> (case r of Inl (json_type_error n m) \<Rightarrow> True | _ \<Rightarrow> False)"

text \<open>
  A standard input whose first token is no integer: after the leading white space and an
  optional sign there is no digit (the empty input included).
\<close>

definition no_integer_first :: "string \<Rightarrow> bool" where
  "no_integer_first stdin \<longleftrightarrow>
     (case strip_sign (dropWhile isspace stdin) of (neg, s) \<Rightarrow> takeWhile isdigit s = [])"

text \<open>A world to run the program in: no API key is set, so no request leaves.\<close>

definition offline_world :: world where
  "offline_world =
     \<lparr>getenv_OPENAI_API_KEY = None,
      curl_easy_init_ok = True,
      json_dump_body = (\<lambda>prompt. Inr prompt),
      curl_easy_perform = (\<lambda>apiKey bodyStr. Inl ''Could not resolve host''),
      json_parse = (\<lambda>s. Inl (json_parse_error ''parse error'')),
      random_draws = (\<lambda>a b k. a)\<rparr>"

text \<open>A standard input made of whole lines, each ended by a newline.\<close>

definition stdin_lines :: "string list \<Rightarrow> istream" where
  "stdin_lines ls = \<lparr>buf = concat (map (\<lambda>l. l @ eol) ls), eofbit = False, failbit = False\<rparr>"




fun is_Stderr :: "event \<Rightarrow> bool" where
  "is_Stderr (Stderr m) = True"
| "is_Stderr e = False"

text \<open>What the two flows can add to the events: output, or the read outside the deck.\<close>

fun flow_event :: "event \<Rightarrow> bool" where
  "flow_event (Stdout m) = True"
| "flow_event out_of_bounds_read = True"
| "flow_event e = False"

section \<open>Properties\<close>

subsection \<open>Searching a string\<close>

lemma find_char_None: "find_char c s = None \<longleftrightarrow> c \<notin> set s"
  by (induction s) auto

lemma find_char_Some: "find_char c s = Some i \<longleftrightarrow> is_first c s i"
proof (induction s arbitrary: i)
  case Nil
  show ?case by (simp add: is_first_def)
next
  case (Cons x xs)
  show ?case
  proof (cases "x = c")
    case True
    then show ?thesis by (auto simp: is_first_def)
  next
    case False
    have "is_first c (x # xs) i \<longleftrightarrow> (\<exists>i'. i = Suc i' \<and> is_first c xs i')"
    proof (cases i)
      case 0
      with False show ?thesis by (simp add: is_first_def)
    next
      case (Suc i')
      with False show ?thesis
        by (auto simp: is_first_def less_Suc_eq_0_disj)
    qed
    with False Cons show ?thesis by auto
  qed
qed

lemma rfind_char_None: "rfind_char c s = None \<longleftrightarrow> c \<notin> set s"
  by (induction s) (auto split: option.splits)

lemma is_last_Cons_Suc: "is_last c (x # xs) (Suc j) \<longleftrightarrow> is_last c xs j"
proof -
  have "(\<forall>k<Suc (length xs). Suc j < k \<longrightarrow> (x # xs) ! k \<noteq> c)
        \<longleftrightarrow> (\<forall>k<length xs. j < k \<longrightarrow> xs ! k \<noteq> c)"
    by (auto simp: less_Suc_eq_0_disj)
  then show ?thesis by (simp add: is_last_def)
qed

lemma is_last_Cons_0: "is_last c (x # xs) 0 \<longleftrightarrow> x = c \<and> c \<notin> set xs"
proof -
  have "(\<forall>k<Suc (length xs). 0 < k \<longrightarrow> (x # xs) ! k \<noteq> c) \<longleftrightarrow> c \<notin> set xs"
    by (auto simp: less_Suc_eq_0_disj in_set_conv_nth)
  then show ?thesis by (auto simp: is_last_def)
qed

lemma is_last_in_set: "is_last c s j \<Longrightarrow> c \<in> set s"
  by (auto simp: is_last_def)

lemma rfind_char_Some: "rfind_char c s = Some j \<longleftrightarrow> is_last c s j"
proof (induction s arbitrary: j)
  case Nil
  show ?case by (simp add: is_last_def)
next
  case (Cons x xs)
  show ?case
  proof (cases "rfind_char c xs")
    case None
    then have notin: "c \<notin> set xs" by (simp add: rfind_char_None)
    show ?thesis
    proof (cases j)
      case 0
      with None notin show ?thesis by (auto simp: is_last_Cons_0)
    next
      case (Suc j')
      with None notin show ?thesis
        by (auto simp: is_last_Cons_Suc dest: is_last_in_set)
    qed
  next
    case (Some l)
    then have l: "is_last c xs l" by (simp add: Cons)
    then have "c \<in> set xs" by (rule is_last_in_set)
    show ?thesis
    proof (cases j)
      case 0
      with Some \<open>c \<in> set xs\<close> show ?thesis by (simp add: is_last_Cons_0)
    next
      case (Suc j')
      have "is_last c xs j' \<longleftrightarrow> rfind_char c xs = Some j'"
        by (simp add: Cons)
      with Some Suc show ?thesis by (simp add: is_last_Cons_Suc)
    qed
  qed
qed

lemma take_drop_inclusive:
  assumes "i \<le> j" "j < length s"
  shows "take (j - i + 1) (drop i s) = inclusive_substring s i j"
proof (rule nth_equalityI)
  show "length (take (j - i + 1) (drop i s)) = length (inclusive_substring s i j)"
    using assms by (simp add: inclusive_substring_def)
next
  fix k
  assume "k < length (take (j - i + 1) (drop i s))"
  then have k: "k < j - i + 1" by simp
  then have "[i..<Suc j] ! k = i + k"
    using assms by (simp add: nth_upt del: upt_Suc)
  with k assms show "take (j - i + 1) (drop i s) ! k = inclusive_substring s i j ! k"
    by (simp add: inclusive_substring_def del: upt_Suc)
qed

subsection \<open>The JSON block of a reply\<close>

lemma extract_json_block_cases:
  "extract_json_block content =
     (case (find_char (CHR ''{'') content, rfind_char (CHR ''}'') content) of
        (Some f, Some l) \<Rightarrow>
          if l \<le> f then Inl (NoJsonObjectFound content)
          else Inr (inclusive_substring content f l)
      | _ \<Rightarrow> Inl (NoJsonObjectFound content))"
proof (cases "find_char (CHR ''{'') content")
  case None
  then show ?thesis by (simp add: extract_json_block_def)
next
  case f: (Some f)
  show ?thesis
  proof (cases "rfind_char (CHR ''}'') content")
    case None
    with f show ?thesis by (simp add: extract_json_block_def)
  next
    case l: (Some l)
    from f have "f < length content" by (simp add: find_char_Some is_first_def)
    moreover from l have "l < length content" by (simp add: rfind_char_Some is_last_def)
    ultimately show ?thesis
      using f l take_drop_inclusive [of f l content]
      by (simp add: extract_json_block_def substr_def)
  qed
qed

lemma is_first_unique: "is_first c s i \<Longrightarrow> is_first c s i' \<Longrightarrow> i = i'"
  by (metis find_char_Some option.inject)

lemma is_last_unique: "is_last c s j \<Longrightarrow> is_last c s j' \<Longrightarrow> j = j'"
  by (metis rfind_char_Some option.inject)

text \<open>
  Claim C2. On every content string, \<open>extract_json_block\<close> returns the characters from
  the first \<open>{\<close> to the last \<open>}\<close>, both included, whenever the first \<open>{\<close> is before the
  last \<open>}\<close>; it fails, with the one error it has, exactly when a brace is missing or the
  last \<open>}\<close> is not after the first \<open>{\<close>.
\<close>

theorem extract_json_block_first_to_last:
  "(\<forall>i j. is_first (CHR ''{'') content i \<and> is_last (CHR ''}'') content j \<and> i < j \<longrightarrow>
      extract_json_block content = Inr (inclusive_substring content i j))
   \<and> (extract_json_block content = Inl (NoJsonObjectFound content) \<longleftrightarrow>
        CHR ''{'' \<notin> set content \<or> CHR ''}'' \<notin> set content
        \<or> (\<exists>i j. is_first (CHR ''{'') content i \<and> is_last (CHR ''}'') content j \<and> j \<le> i))
   \<and> (\<forall>e. extract_json_block content = Inl e \<longrightarrow> e = NoJsonObjectFound content)"
proof (intro conjI allI impI)
  fix i j
  assume "is_first (CHR ''{'') content i \<and> is_last (CHR ''}'') content j \<and> i < j"
  then have "find_char (CHR ''{'') content = Some i" "rfind_char (CHR ''}'') content = Some j"
    and "i < j"
    by (simp_all add: find_char_Some rfind_char_Some)
  then show "extract_json_block content = Inr (inclusive_substring content i j)"
    by (simp add: extract_json_block_cases)
next
  show "extract_json_block content = Inl (NoJsonObjectFound content) \<longleftrightarrow>
        CHR ''{'' \<notin> set content \<or> CHR ''}'' \<notin> set content
        \<or> (\<exists>i j. is_first (CHR ''{'') content i \<and> is_last (CHR ''}'') content j \<and> j \<le> i)"
  proof (cases "find_char (CHR ''{'') content")
    case None
    then have "CHR ''{'' \<notin> set content" by (simp add: find_char_None)
    with None show ?thesis by (simp add: extract_json_block_cases)
  next
    case f: (Some f)
    then have first: "is_first (CHR ''{'') content f" by (simp add: find_char_Some)
    then have in1: "CHR ''{'' \<in> set content"
      unfolding is_first_def using nth_mem by metis
    show ?thesis
    proof (cases "rfind_char (CHR ''}'') content")
      case None
      then have "CHR ''}'' \<notin> set content" by (simp add: rfind_char_None)
      with f None show ?thesis by (simp add: extract_json_block_cases)
    next
      case l: (Some l)
      then have last: "is_last (CHR ''}'') content l" by (simp add: rfind_char_Some)
      then have in2: "CHR ''}'' \<in> set content" by (rule is_last_in_set)
      have "(\<exists>i j. is_first (CHR ''{'') content i \<and> is_last (CHR ''}'') content j \<and> j \<le> i)
            \<longleftrightarrow> l \<le> f"
        using first last is_first_unique is_last_unique by blast
      with f l in1 in2 show ?thesis by (simp add: extract_json_block_cases)
    qed
  qed
next
  fix e
  assume "extract_json_block content = Inl e"
  then show "e = NoJsonObjectFound content"
    by (auto simp: extract_json_block_cases split: option.splits if_splits)
qed

theorem extract_json_block_first_to_last_witness:
  "is_first (CHR ''{'') ''x{a}y'' 1 \<and> is_last (CHR ''}'') ''x{a}y'' 3
   \<and> extract_json_block ''x{a}y'' = Inr ''{a}''
   \<and> extract_json_block ''}{'' = Inl (NoJsonObjectFound ''}{'')"
proof -
  have f: "is_first (CHR ''{'') ''x{a}y'' 1"
    by (simp add: find_char_Some [symmetric])
  have l: "is_last (CHR ''}'') ''x{a}y'' 3"
    by (simp add: rfind_char_Some [symmetric])
  have s: "inclusive_substring ''x{a}y'' 1 3 = ''{a}''"
    by (simp add: inclusive_substring_def upt_rec)
  have f': "is_first (CHR ''{'') ''}{'' 1"
    by (simp add: find_char_Some [symmetric])
  have l': "is_last (CHR ''}'') ''}{'' 0"
    by (simp add: rfind_char_Some [symmetric])
  from extract_json_block_first_to_last [of "''x{a}y''"] f l
  have "extract_json_block ''x{a}y'' = Inr (inclusive_substring ''x{a}y'' 1 3)"
    by simp
  moreover from extract_json_block_first_to_last [of "''}{''"] f' l'
  have "extract_json_block ''}{'' = Inl (NoJsonObjectFound ''}{'')"
    by blast
  ultimately show ?thesis using f l s by simp
qed

subsection \<open>Decimal numbers\<close>

lemma isdigit_digit_char: "d < 10 \<Longrightarrow> isdigit (digit_char d)"
  by (simp add: isdigit_def digit_char_def)

lemma digit_value_digit_char: "d < 10 \<Longrightarrow> digit_value (digit_char d) = d"
  by (simp add: digit_value_def digit_char_def)

lemma isdigit_not_isspace: "isdigit c \<Longrightarrow> \<not> isspace c"
  by (auto simp: isdigit_def isspace_def)

lemma isdigit_not_sign: "isdigit c \<Longrightarrow> c \<noteq> CHR ''-'' \<and> c \<noteq> CHR ''+''"
  by (auto simp: isdigit_def)

lemma isdigit_not_blank: "isdigit c \<Longrightarrow> \<not> is_blank c"
  by (auto simp: isdigit_def is_blank_def)

lemma isdigit_not_letter: "isdigit c \<Longrightarrow> c \<noteq> CHR ''j''"
  by (auto simp: isdigit_def)

lemma digits_value_snoc: "digits_value (ds @ [c]) = 10 * digits_value ds + digit_value c"
  by (simp add: digits_value_def)

lemma dec_nonempty: "dec n \<noteq> []"
  by (subst dec.simps) simp

lemma dec_digits: "list_all isdigit (dec n)"
proof (induction n rule: dec.induct)
  case (1 n)
  show ?case
  proof (cases "n < 10")
    case True
    then show ?thesis by (subst dec.simps) (simp add: isdigit_digit_char)
  next
    case False
    with 1 show ?thesis by (subst dec.simps) (simp add: isdigit_digit_char)
  qed
qed

lemma digits_value_dec: "digits_value (dec n) = n"
proof (induction n rule: dec.induct)
  case (1 n)
  show ?case
  proof (cases "n < 10")
    case True
    then show ?thesis
      by (subst dec.simps) (simp add: digits_value_def digit_value_digit_char)
  next
    case False
    with 1 show ?thesis
      by (subst dec.simps) (simp add: digits_value_snoc digit_value_digit_char)
  qed
qed

lemma takeWhile_all: "list_all P xs \<Longrightarrow> takeWhile P xs = xs"
  by (induction xs) auto

lemma dropWhile_none: "xs \<noteq> [] \<Longrightarrow> \<not> P (hd xs) \<Longrightarrow> dropWhile P xs = xs"
  by (cases xs) auto

lemma hd_dec_digit: "isdigit (hd (dec n))"
  using dec_nonempty [of n] dec_digits [of n] by (cases "dec n") auto

lemma strip_sign_digit: "xs \<noteq> [] \<Longrightarrow> isdigit (hd xs) \<Longrightarrow> strip_sign xs = (False, xs)"
  by (cases xs) (auto dest: isdigit_not_sign)

lemma stoi_dec:
  "stoi (dec n) = (if int n \<le> INT_MAX then Inr (int n) else Inl (out_of_range ''stoi''))"
proof -
  have a: "dropWhile isspace (dec n) = dec n"
    by (rule dropWhile_none) (simp_all add: dec_nonempty hd_dec_digit isdigit_not_isspace)
  have b: "strip_sign (dec n) = (False, dec n)"
    by (rule strip_sign_digit) (simp_all add: dec_nonempty hd_dec_digit)
  have c: "takeWhile isdigit (dec n) = dec n"
    by (rule takeWhile_all) (rule dec_digits)
  show ?thesis
    by (simp add: stoi_def Let_def a b c dec_nonempty digits_value_dec INT_MIN_def INT_MAX_def)
qed

lemma stoi_minus_dec:
  "stoi (CHR ''-'' # dec n) =
     (if INT_MIN \<le> - int n then Inr (- int n) else Inl (out_of_range ''stoi''))"
proof -
  have a: "\<not> isspace (CHR ''-'')" by (simp add: isspace_def)
  have c: "takeWhile isdigit (dec n) = dec n"
    by (rule takeWhile_all) (rule dec_digits)
  show ?thesis
    by (simp add: stoi_def Let_def a c dec_nonempty digits_value_dec INT_MIN_def INT_MAX_def)
qed

lemma stoi_to_string:
  "stoi (to_string t) =
     (if INT_MIN \<le> t \<and> t \<le> INT_MAX then Inr t else Inl (out_of_range ''stoi''))"
proof (cases "t < 0")
  case True
  then show ?thesis
    by (auto simp: to_string_def stoi_minus_dec INT_MIN_def INT_MAX_def)
next
  case False
  then show ?thesis
    by (auto simp: to_string_def stoi_dec INT_MIN_def INT_MAX_def)
qed

lemma to_string_nonempty: "to_string t \<noteq> []"
  by (simp add: to_string_def dec_nonempty)

lemma filter_all: "list_all P xs \<Longrightarrow> filter P xs = xs"
  by (induction xs) auto

lemma to_string_chars: "list_all (\<lambda>c. isdigit c \<or> c = CHR ''-'') (to_string t)"
  using dec_digits by (auto simp: to_string_def list_all_iff)

lemma filter_to_string: "filter (\<lambda>c. isdigit c \<or> c = CHR ''-'') (to_string t) = to_string t"
  by (rule filter_all) (rule to_string_chars)

lemma hd_to_string: "isdigit (hd (to_string t)) \<or> hd (to_string t) = CHR ''-''"
  by (simp add: to_string_def hd_dec_digit)

subsection \<open>One step of the viewer\<close>

lemma trim_leading_nonblank: "line \<noteq> [] \<Longrightarrow> \<not> is_blank (hd line) \<Longrightarrow> trim_leading line = line"
  by (cases line) (auto simp: trim_leading_def)

lemma dropWhile_blanks:
  "list_all is_blank bl \<Longrightarrow> cmd \<noteq> [] \<Longrightarrow> \<not> is_blank (hd cmd) \<Longrightarrow>
   dropWhile is_blank (bl @ cmd) = cmd"
  by (induction bl) (auto simp: dropWhile_none)

lemma trim_leading_blanks:
  "list_all is_blank bl \<Longrightarrow> cmd \<noteq> [] \<Longrightarrow> \<not> is_blank (hd cmd) \<Longrightarrow>
   trim_leading (bl @ cmd) = cmd"
  by (simp add: trim_leading_def dropWhile_blanks)

lemma viewer_step_blanks:
  assumes "list_all is_blank bl" "cmd \<noteq> []" "\<not> is_blank (hd cmd)"
  shows "viewer_step N st (bl @ cmd) = viewer_step N st cmd"
proof -
  have "trim_leading (bl @ cmd) = trim_leading cmd"
    using assms by (simp add: trim_leading_blanks trim_leading_nonblank)
  with assms(2) show ?thesis by (simp add: viewer_step_def)
qed

lemma trim_words:
  "trim_leading ''f'' = ''f''" "trim_leading ''flip'' = ''flip''"
  "trim_leading ''n'' = ''n''" "trim_leading ''next'' = ''next''"
  "trim_leading ''p'' = ''p''" "trim_leading ''prev'' = ''prev''"
  "trim_leading ''r'' = ''r''" "trim_leading ''random'' = ''random''"
  "trim_leading ''q'' = ''q''" "trim_leading ''quit'' = ''quit''"
  by (simp_all add: trim_leading_def is_blank_def)

lemma viewer_step_flip:
  "cmd = ''f'' \<or> cmd = ''flip'' \<Longrightarrow>
   viewer_step N st cmd = Continue (st\<lparr>showAnswer := \<not> showAnswer st\<rparr>)"
  by (elim disjE; simp add: viewer_step_def Let_def trim_words)

lemma viewer_step_next:
  "cmd = ''n'' \<or> cmd = ''next'' \<Longrightarrow>
   viewer_step N st cmd = Continue (st\<lparr>idx := c_rem (idx st + 1) N, showAnswer := False\<rparr>)"
  by (elim disjE; simp add: viewer_step_def Let_def trim_words)

lemma viewer_step_prev:
  "cmd = ''p'' \<or> cmd = ''prev'' \<Longrightarrow>
   viewer_step N st cmd = Continue (st\<lparr>idx := c_rem (idx st - 1 + N) N, showAnswer := False\<rparr>)"
  by (elim disjE; simp add: viewer_step_def Let_def trim_words)

lemma viewer_step_random:
  "cmd = ''r'' \<or> cmd = ''random'' \<Longrightarrow>
   viewer_step N st cmd =
     Continue (st\<lparr>idx := rng st 0 (N - 1) 0, showAnswer := False,
                  rng := (\<lambda>a b k. rng st a b (Suc k))\<rparr>)"
  by (elim disjE; simp add: viewer_step_def Let_def trim_words)

lemma viewer_step_quit: "cmd = ''q'' \<or> cmd = ''quit'' \<Longrightarrow> viewer_step N st cmd = Break"
  by (elim disjE; simp add: viewer_step_def Let_def trim_words)

text \<open>A line of more than two characters that starts with \<open>j\<close> takes the jump branch.\<close>

lemma viewer_step_jump:
  assumes "2 < length cmd" "take 1 cmd = ''j''"
  shows "viewer_step N st cmd =
           (case stoi (filter (\<lambda>c. isdigit c \<or> c = CHR ''-'') cmd) of
              Inl e \<Rightarrow> Continue st
            | Inr t \<Rightarrow> Continue (jump_to N st t))"
proof -
  from assms obtain c2 c3 rest where cmd: "cmd = CHR ''j'' # c2 # c3 # rest"
    by (cases cmd; cases "tl cmd"; cases "tl (tl cmd)") auto
  have trim: "trim_leading cmd = cmd"
    by (rule trim_leading_nonblank) (simp_all add: cmd is_blank_def)
  have empty: "stoi [] = Inl (invalid_argument ''stoi'')"
    by (simp add: stoi_def)
  show ?thesis
  proof (cases "filter (\<lambda>c. isdigit c \<or> c = CHR ''-'') cmd = []")
    case True
    then show ?thesis
      unfolding viewer_step_def trim Let_def by (simp add: cmd empty)
  next
    case False
    then show ?thesis
      unfolding viewer_step_def trim Let_def by (simp add: cmd)
  qed
qed

text \<open>Any other line that is no command word is read as a card number.\<close>

lemma viewer_step_number:
  assumes "line \<noteq> []" "\<not> List.member literal_commands (trim_leading line)"
    and "\<not> (2 < length (trim_leading line) \<and> take 1 (trim_leading line) = ''j'')"
  shows "viewer_step N st line =
           (case stoi (trim_leading line) of
              Inl e \<Rightarrow> Continue st
            | Inr t \<Rightarrow> Continue (jump_to N st t))"
proof -
  have "take 4 (trim_leading line) = ''jump'' \<Longrightarrow>
        2 < length (trim_leading line) \<and> take 1 (trim_leading line) = ''j''"
    by (cases "trim_leading line"; cases "tl (trim_leading line)";
        cases "tl (tl (trim_leading line))") auto
  with assms show ?thesis
    by (auto simp: viewer_step_def Let_def literal_commands_def)
qed

lemma c_rem_mod: "0 \<le> a \<Longrightarrow> 0 < b \<Longrightarrow> c_rem a b = a mod b"
proof -
  assume "0 \<le> a" "0 < b"
  then have "c_rem a b = a - b * (a div b)"
    by (cases "a = 0") (simp_all add: c_rem_def)
  then show ?thesis by (simp add: minus_mult_div_eq_mod)
qed

lemma jump_chars_no_digits:
  "\<not> isdigit (CHR ''j'')" "\<not> isdigit (CHR ''u'')" "\<not> isdigit (CHR ''m'')"
  "\<not> isdigit (CHR ''p'')" "\<not> isdigit (CHR '' '')"
  by (simp_all add: isdigit_def)

lemmas filter_jump_to_string = jump_chars_no_digits filter_to_string

lemma literal_command_hd:
  "List.member literal_commands cmd \<Longrightarrow> hd cmd \<in> set ''fnprq''"
  by (auto simp: literal_commands_def)

lemma to_string_not_literal: "\<not> List.member literal_commands (to_string t)"
proof
  assume "List.member literal_commands (to_string t)"
  then have "hd (to_string t) \<in> set ''fnprq''" by (rule literal_command_hd)
  with hd_to_string [of t] show False by (auto simp: isdigit_def)
qed

lemma jump_to_cases:
  "jump_to N st t = (if 1 \<le> t \<and> t \<le> N then st\<lparr>idx := t - 1, showAnswer := False\<rparr> else st)"
  by (simp add: jump_to_def)

text \<open>The three ways to write a card number \<open>t\<close>.\<close>

lemma viewer_step_card_number:
  assumes "cmd = ''j '' @ to_string t \<or> cmd = ''jump '' @ to_string t \<or> cmd = to_string t"
  shows "viewer_step N st cmd =
           (if t \<le> INT_MAX then Continue (jump_to N st t) else Continue st)"
proof -
  have low: "t < INT_MIN \<Longrightarrow> jump_to N st t = st"
    by (simp add: jump_to_def INT_MIN_def)
  have trim: "trim_leading (to_string t) = to_string t"
    using hd_to_string [of t]
    by (intro trim_leading_nonblank) (auto simp: to_string_nonempty is_blank_def isdigit_def)
  have nohd: "take 1 (to_string t) \<noteq> ''j''"
    using hd_to_string [of t] to_string_nonempty [of t]
    by (cases "to_string t") (auto simp: isdigit_def)
  from assms consider "cmd = ''j '' @ to_string t" | "cmd = ''jump '' @ to_string t"
    | "cmd = to_string t" by blast
  then show ?thesis
  proof cases
    case 1
    then have "2 < length cmd" "take 1 cmd = ''j''"
      using to_string_nonempty [of t] by (auto simp: Suc_lessI)
    then show ?thesis
      using low by (auto simp: viewer_step_jump 1 filter_jump_to_string stoi_to_string)
  next
    case 2
    then have "2 < length cmd" "take 1 cmd = ''j''" by auto
    then show ?thesis
      using low by (auto simp: viewer_step_jump 2 filter_jump_to_string stoi_to_string)
  next
    case 3
    have "viewer_step N st (to_string t) =
            (case stoi (trim_leading (to_string t)) of
               Inl e \<Rightarrow> Continue st
             | Inr t \<Rightarrow> Continue (jump_to N st t))"
    proof (rule viewer_step_number)
      show "to_string t \<noteq> []" by (rule to_string_nonempty)
      show "\<not> List.member literal_commands (trim_leading (to_string t))"
        unfolding trim by (rule to_string_not_literal)
      show "\<not> (2 < length (trim_leading (to_string t))
                \<and> take 1 (trim_leading (to_string t)) = ''j'')"
        unfolding trim using nohd by blast
    qed
    then show ?thesis
      using low by (auto simp: 3 trim stoi_to_string)
  qed
qed

subsection \<open>Flipping and moving\<close>

text \<open>
  Claim C6. In every state of the viewer, \<open>f\<close> and \<open>flip\<close> negate \<open>showAnswer\<close> and
  leave the rest of the state as it is; \<open>n\<close>, \<open>next\<close>, \<open>p\<close>, \<open>prev\<close>, \<open>r\<close> and \<open>random\<close>
  continue in a state with \<open>showAnswer = False\<close>; a jump to a card number \<open>t\<close> between 1
  and the deck size, written \<open>j t\<close>, \<open>jump t\<close> or \<open>t\<close>, sets the index to \<open>t - 1\<close> and
  \<open>showAnswer\<close> to \<open>False\<close>. Blanks in front of a command change nothing.
\<close>

theorem flip_toggles_navigation_hides:
  "(cmd = ''f'' \<or> cmd = ''flip'' \<longrightarrow>
      viewer_step N st cmd = Continue (st\<lparr>showAnswer := \<not> showAnswer st\<rparr>))
   \<and> (cmd = ''n'' \<or> cmd = ''next'' \<or> cmd = ''p'' \<or> cmd = ''prev'' \<or> cmd = ''r'' \<or> cmd = ''random'' \<longrightarrow>
        (\<exists>st'. viewer_step N st cmd = Continue st' \<and> showAnswer st' = False))
   \<and> (1 \<le> t \<and> t \<le> N \<and> N \<le> INT_MAX
        \<and> (cmd = ''j '' @ to_string t \<or> cmd = ''jump '' @ to_string t \<or> cmd = to_string t) \<longrightarrow>
        viewer_step N st cmd = Continue (st\<lparr>idx := t - 1, showAnswer := False\<rparr>))
   \<and> (list_all is_blank blanks \<and> cmd \<noteq> [] \<and> \<not> is_blank (hd cmd) \<longrightarrow>
        viewer_step N st (blanks @ cmd) = viewer_step N st cmd)"
proof (intro conjI impI)
  assume "cmd = ''f'' \<or> cmd = ''flip''"
  then show "viewer_step N st cmd = Continue (st\<lparr>showAnswer := \<not> showAnswer st\<rparr>)"
    by (rule viewer_step_flip)
next
  assume "cmd = ''n'' \<or> cmd = ''next'' \<or> cmd = ''p'' \<or> cmd = ''prev'' \<or> cmd = ''r'' \<or> cmd = ''random''"
  then consider "cmd = ''n'' \<or> cmd = ''next''" | "cmd = ''p'' \<or> cmd = ''prev''"
    | "cmd = ''r'' \<or> cmd = ''random''" by blast
  then show "\<exists>st'. viewer_step N st cmd = Continue st' \<and> showAnswer st' = False"
  proof cases
    case 1
    then show ?thesis by (simp add: viewer_step_next)
  next
    case 2
    then show ?thesis by (simp add: viewer_step_prev)
  next
    case 3
    then show ?thesis by (simp add: viewer_step_random)
  qed
next
  assume a: "1 \<le> t \<and> t \<le> N \<and> N \<le> INT_MAX
    \<and> (cmd = ''j '' @ to_string t \<or> cmd = ''jump '' @ to_string t \<or> cmd = to_string t)"
  then have "cmd = ''j '' @ to_string t \<or> cmd = ''jump '' @ to_string t \<or> cmd = to_string t"
    by blast
  then have "viewer_step N st cmd =
      (if t \<le> INT_MAX then Continue (jump_to N st t) else Continue st)"
    by (rule viewer_step_card_number)
  with a show "viewer_step N st cmd = Continue (st\<lparr>idx := t - 1, showAnswer := False\<rparr>)"
    by (simp add: jump_to_def)
next
  assume "list_all is_blank blanks \<and> cmd \<noteq> [] \<and> \<not> is_blank (hd cmd)"
  then show "viewer_step N st (blanks @ cmd) = viewer_step N st cmd"
    by (simp add: viewer_step_blanks)
qed

theorem flip_toggles_navigation_hides_witness:
  "viewer_step 3 \<lparr>idx = 1, showAnswer = True, rng = (\<lambda>a b k. a)\<rparr> ''flip''
     = Continue \<lparr>idx = 1, showAnswer = False, rng = (\<lambda>a b k. a)\<rparr>
   \<and> (\<exists>st'. viewer_step 3 \<lparr>idx = 1, showAnswer = True, rng = (\<lambda>a b k. a)\<rparr> ''prev''
               = Continue st' \<and> showAnswer st' = False)
   \<and> viewer_step 3 \<lparr>idx = 1, showAnswer = True, rng = (\<lambda>a b k. a)\<rparr> (''jump '' @ to_string 3)
       = Continue \<lparr>idx = 2, showAnswer = False, rng = (\<lambda>a b k. a)\<rparr>
   \<and> viewer_step 3 \<lparr>idx = 1, showAnswer = True, rng = (\<lambda>a b k. a)\<rparr> (''  '' @ ''next'')
       = viewer_step 3 \<lparr>idx = 1, showAnswer = True, rng = (\<lambda>a b k. a)\<rparr> ''next''"
proof -
  let ?st = "\<lparr>idx = 1, showAnswer = True, rng = (\<lambda>a b k. a)\<rparr>"
  have "viewer_step 3 ?st ''flip'' = Continue (?st\<lparr>showAnswer := \<not> showAnswer ?st\<rparr>)"
    using flip_toggles_navigation_hides [of "''flip''" 3 ?st 0 "[]"] by simp
  moreover have "\<exists>st'. viewer_step 3 ?st ''prev'' = Continue st' \<and> showAnswer st' = False"
    using flip_toggles_navigation_hides [of "''prev''" 3 ?st 0 "[]"] by simp
  moreover have "viewer_step 3 ?st (''jump '' @ to_string 3)
      = Continue (?st\<lparr>idx := 3 - 1, showAnswer := False\<rparr>)"
    using flip_toggles_navigation_hides [of "''jump '' @ to_string 3" 3 ?st 3 "[]"]
    by (simp add: INT_MAX_def)
  moreover have "viewer_step 3 ?st (''  '' @ ''next'') = viewer_step 3 ?st ''next''"
    using flip_toggles_navigation_hides [of "''next''" 3 ?st 0 "''  ''"]
    by (simp add: is_blank_def)
  ultimately show ?thesis by simp
qed

subsection \<open>Going round the deck\<close>

lemma viewer_run_next:
  assumes "0 < N" "0 \<le> idx st" "idx st < N"
  shows "viewer_run N st (replicate (Suc k) ''next'') =
           Continue (st\<lparr>idx := (idx st + int (Suc k)) mod N, showAnswer := False\<rparr>)"
  using assms
proof (induction k arbitrary: st)
  case 0
  then show ?case by (simp add: viewer_step_next c_rem_mod)
next
  case (Suc k)
  let ?st1 = "st\<lparr>idx := (idx st + 1) mod N, showAnswer := False\<rparr>"
  have step: "viewer_step N st ''next'' = Continue ?st1"
    using Suc.prems by (simp add: viewer_step_next c_rem_mod)
  have "viewer_run N ?st1 (replicate (Suc k) ''next'') =
          Continue (?st1\<lparr>idx := (idx ?st1 + int (Suc k)) mod N, showAnswer := False\<rparr>)"
    using Suc.prems by (intro Suc.IH) simp_all
  moreover have "((idx st + 1) mod N + int (Suc k)) mod N = (idx st + int (Suc (Suc k))) mod N"
    by (simp add: mod_add_left_eq add.assoc)
  ultimately show ?case using step by simp
qed

text \<open>
  Claim C7. On a deck of \<open>N\<close> cards (the viewer only runs on a deck that is not empty),
  from a state with index 0 and any \<open>showAnswer\<close>, the command \<open>next\<close> given \<open>N\<close>
  times leads back to index 0 with \<open>showAnswer = False\<close>.
\<close>

theorem next_N_times_returns_to_first:
  assumes "0 < N" "idx st = 0"
  shows "viewer_run N st (replicate (nat N) ''next'') =
           Continue (st\<lparr>idx := 0, showAnswer := False\<rparr>)"
proof -
  from assms(1) obtain k where k: "nat N = Suc k" by (cases "nat N") auto
  then have N: "N = int (Suc k)" using assms(1) by linarith
  have "viewer_run N st (replicate (Suc k) ''next'') =
          Continue (st\<lparr>idx := (idx st + int (Suc k)) mod N, showAnswer := False\<rparr>)"
    using assms by (intro viewer_run_next) simp_all
  then show ?thesis using k N assms(2) by simp
qed

theorem next_N_times_returns_to_first_witness:
  "viewer_run 3 \<lparr>idx = 0, showAnswer = True, rng = (\<lambda>a b k. a)\<rparr> [''next'', ''next'', ''next'']
     = Continue \<lparr>idx = 0, showAnswer = False, rng = (\<lambda>a b k. a)\<rparr>"
proof -
  have "replicate (nat 3) ''next'' = [''next'', ''next'', ''next'']"
    by (simp add: numeral_3_eq_3)
  then show ?thesis
    using next_N_times_returns_to_first
            [of 3 "\<lparr>idx = 0, showAnswer = True, rng = (\<lambda>a b k. a)\<rparr>"]
    by simp
qed

subsection \<open>What counts as a jump\<close>

text \<open>
  Claim C9. A line of at least three characters whose first is \<open>j\<close> (so also one that
  starts with \<open>jump\<close>) is a jump: the target is what \<open>stoi\<close> reads from the digits and
  minus signs of the whole line, in their order, and the jump is made when the target is a
  card number of the deck. So \<open>j 1 2\<close> goes to card 12 of a deck of at least 12 cards and
  \<open>java 3\<close> to card 3.
\<close>

theorem jump_reads_all_digits_of_line:
  "(3 \<le> length line \<and> hd line = CHR ''j'' \<longrightarrow>
      viewer_step N st line =
        (case stoi (filter (\<lambda>c. isdigit c \<or> c = CHR ''-'') line) of
           Inl e \<Rightarrow> Continue st
         | Inr t \<Rightarrow>
             if 1 \<le> t \<and> t \<le> N then Continue (st\<lparr>idx := t - 1, showAnswer := False\<rparr>)
             else Continue st))
   \<and> (12 \<le> N \<longrightarrow> viewer_step N st ''j 1 2'' = Continue (st\<lparr>idx := 11, showAnswer := False\<rparr>))
   \<and> (3 \<le> N \<longrightarrow> viewer_step N st ''java 3'' = Continue (st\<lparr>idx := 2, showAnswer := False\<rparr>))"
proof (intro conjI impI)
  assume a: "3 \<le> length line \<and> hd line = CHR ''j''"
  then have "2 < length line" "take 1 line = ''j''"
    by (cases line; simp)+
  then have "viewer_step N st line =
      (case stoi (filter (\<lambda>c. isdigit c \<or> c = CHR ''-'') line) of
         Inl e \<Rightarrow> Continue st
       | Inr t \<Rightarrow> Continue (jump_to N st t))"
    by (rule viewer_step_jump)
  then show "viewer_step N st line =
      (case stoi (filter (\<lambda>c. isdigit c \<or> c = CHR ''-'') line) of
         Inl e \<Rightarrow> Continue st
       | Inr t \<Rightarrow>
           if 1 \<le> t \<and> t \<le> N then Continue (st\<lparr>idx := t - 1, showAnswer := False\<rparr>)
           else Continue st)"
    by (simp add: jump_to_def split: sum.splits)
next
  assume "12 \<le> N"
  moreover have "stoi (filter (\<lambda>c. isdigit c \<or> c = CHR ''-'') ''j 1 2'') = Inr 12"
    by (simp add: isdigit_def isspace_def stoi_def digits_value_def digit_value_def
          INT_MIN_def INT_MAX_def)
  ultimately show "viewer_step N st ''j 1 2'' = Continue (st\<lparr>idx := 11, showAnswer := False\<rparr>)"
    by (simp add: viewer_step_jump jump_to_def)
next
  assume "3 \<le> N"
  moreover have "stoi (filter (\<lambda>c. isdigit c \<or> c = CHR ''-'') ''java 3'') = Inr 3"
    by (simp add: isdigit_def isspace_def stoi_def digits_value_def digit_value_def
          INT_MIN_def INT_MAX_def)
  ultimately show "viewer_step N st ''java 3'' = Continue (st\<lparr>idx := 2, showAnswer := False\<rparr>)"
    by (simp add: viewer_step_jump jump_to_def)
qed

theorem jump_reads_all_digits_of_line_witness:
  "viewer_step 12 \<lparr>idx = 0, showAnswer = True, rng = (\<lambda>a b k. a)\<rparr> ''j 1 2''
     = Continue \<lparr>idx = 11, showAnswer = False, rng = (\<lambda>a b k. a)\<rparr>
   \<and> viewer_step 12 \<lparr>idx = 0, showAnswer = True, rng = (\<lambda>a b k. a)\<rparr> ''java 3''
     = Continue \<lparr>idx = 2, showAnswer = False, rng = (\<lambda>a b k. a)\<rparr>
   \<and> viewer_step 12 \<lparr>idx = 0, showAnswer = True, rng = (\<lambda>a b k. a)\<rparr> ''jx7-''
     = Continue \<lparr>idx = 6, showAnswer = False, rng = (\<lambda>a b k. a)\<rparr>"
proof -
  let ?st = "\<lparr>idx = 0, showAnswer = True, rng = (\<lambda>a b k. a)\<rparr>"
  note T = jump_reads_all_digits_of_line [of "''jx7-''" 12 ?st]
  have le: "(12::int) \<le> 12" "(3::int) \<le> 12" by simp_all
  have pre: "3 \<le> length ''jx7-'' \<and> hd ''jx7-'' = CHR ''j''" by simp
  have s: "stoi (filter (\<lambda>c. isdigit c \<or> c = CHR ''-'') ''jx7-'') = Inr 7"
    by (simp add: isdigit_def isspace_def stoi_def digits_value_def digit_value_def
          INT_MIN_def INT_MAX_def)
  from T le have a: "viewer_step 12 ?st ''j 1 2'' = Continue (?st\<lparr>idx := 11, showAnswer := False\<rparr>)"
    by blast
  from T le have b: "viewer_step 12 ?st ''java 3'' = Continue (?st\<lparr>idx := 2, showAnswer := False\<rparr>)"
    by blast
  from T pre have "viewer_step 12 ?st ''jx7-'' =
      (case stoi (filter (\<lambda>c. isdigit c \<or> c = CHR ''-'') ''jx7-'') of
         Inl e \<Rightarrow> Continue ?st
       | Inr t \<Rightarrow>
           if 1 \<le> t \<and> t \<le> 12 then Continue (?st\<lparr>idx := t - 1, showAnswer := False\<rparr>)
           else Continue ?st)"
    by blast
  then have c: "viewer_step 12 ?st ''jx7-'' = Continue (?st\<lparr>idx := 6, showAnswer := False\<rparr>)"
    unfolding s by simp
  from a b c show ?thesis by simp
qed

subsection \<open>Lines the viewer ignores\<close>

lemma trim_leading_idem: "trim_leading (trim_leading line) = trim_leading line"
proof (cases "dropWhile is_blank line = []")
  case True
  then show ?thesis by (simp add: trim_leading_def)
next
  case False
  then have "\<not> is_blank (hd (dropWhile is_blank line))"
    by (rule hd_dropWhile)
  with False have "trim_leading (dropWhile is_blank line) = dropWhile is_blank line"
    by (rule trim_leading_nonblank)
  with False show ?thesis by (simp add: trim_leading_def)
qed

lemma trim_leading_nonempty: "line \<noteq> [] \<Longrightarrow> trim_leading line \<noteq> []"
  by (simp add: trim_leading_def)

lemma viewer_step_trim: "line \<noteq> [] \<Longrightarrow> viewer_step N st line = viewer_step N st (trim_leading line)"
  by (simp add: viewer_step_def trim_leading_idem trim_leading_nonempty)

text \<open>After the command words, the step depends on the number read from the line only.\<close>

lemma viewer_step_number_text:
  assumes "line \<noteq> []" "\<not> List.member literal_commands (trim_leading line)"
  shows "viewer_step N st line =
           (case stoi (number_text (trim_leading line)) of
              Inl e \<Rightarrow> Continue st
            | Inr t \<Rightarrow> Continue (jump_to N st t))"
proof (cases "2 < length (trim_leading line) \<and> take 1 (trim_leading line) = ''j''")
  case True
  then have "viewer_step N st (trim_leading line) =
      (case stoi (filter (\<lambda>c. isdigit c \<or> c = CHR ''-'') (trim_leading line)) of
         Inl e \<Rightarrow> Continue st
       | Inr t \<Rightarrow> Continue (jump_to N st t))"
    by (intro viewer_step_jump) simp_all
  moreover have "number_text (trim_leading line) =
      filter (\<lambda>c. isdigit c \<or> c = CHR ''-'') (trim_leading line)"
    unfolding number_text_def by (rule if_P) (rule True)
  ultimately show ?thesis
    using assms(1) by (simp add: viewer_step_trim)
next
  case False
  with assms have "viewer_step N st line =
      (case stoi (trim_leading line) of
         Inl e \<Rightarrow> Continue st
       | Inr t \<Rightarrow> Continue (jump_to N st t))"
    by (intro viewer_step_number)
  moreover have "number_text (trim_leading line) = trim_leading line"
    unfolding number_text_def by (rule if_not_P) (rule False)
  ultimately show ?thesis by simp
qed

lemma strip_sign_subset: "strip_sign s = (neg, r) \<Longrightarrow> set r \<subseteq> set s"
  by (cases s) (auto split: if_splits)

lemma stoi_no_digit:
  assumes "\<not> list_ex isdigit s"
  shows "stoi s = Inl (invalid_argument ''stoi'')"
proof -
  obtain neg r where r: "strip_sign (dropWhile isspace s) = (neg, r)"
    by (cases "strip_sign (dropWhile isspace s)")
  have "set r \<subseteq> set (dropWhile isspace s)"
    using r by (rule strip_sign_subset)
  moreover have "set (dropWhile isspace s) \<subseteq> set s"
    by (auto dest: set_dropWhileD)
  ultimately have "\<forall>c\<in>set r. \<not> isdigit c"
    using assms by (auto simp: list_ex_iff)
  then have "takeWhile isdigit r = []"
    by (cases r) auto
  with r show ?thesis by (simp add: stoi_def)
qed

lemma stoi_no_number:
  assumes "s \<noteq> []" "\<not> isspace (hd s)" "\<not> isdigit (hd s)"
    and "hd s \<noteq> CHR ''-''" "hd s \<noteq> CHR ''+''"
  shows "stoi s = Inl (invalid_argument ''stoi'')"
proof -
  from assms obtain c cs where s: "s = c # cs" by (cases s) auto
  with assms show ?thesis by (simp add: stoi_def)
qed

text \<open>
  Claim C4, as amended. On a deck of \<open>N\<close> cards and in every state, a line leaves the
  state as it is and the loop goes on when it is empty, or when, after its leading
  blanks, it is no command word and the number the viewer reads from it (from the digits
  and minus signs of a line of more than two characters starting with \<open>j\<close>, from the
  start of any other line) is missing, out of the range of \<^verbatim>\<open>int\<close>, or no card number
  of the deck. That covers: a card number \<open>t\<close> below 1 or above \<open>N\<close> written \<open>j t\<close>,
  \<open>jump t\<close> or \<open>t\<close>; a line starting with \<open>j\<close> that holds no digit; and a line that is
  no command word and starts with none of white space, a sign, a digit or \<open>j\<close>. When
  the number \<open>u\<close> read from a line that is no command word is a card number of the
  deck, the index becomes \<open>u - 1\<close> and the answer is hidden, also when the line is none
  of the listed command forms, as \<open>jump x2\<close> and \<open>2x\<close> are.
\<close>

theorem ignored_lines_keep_state:
  "viewer_step N st [] = Continue st
   \<and> ((t < 1 \<or> N < t)
        \<and> (cmd = ''j '' @ to_string t \<or> cmd = ''jump '' @ to_string t \<or> cmd = to_string t) \<longrightarrow>
        viewer_step N st cmd = Continue st)
   \<and> (3 \<le> length cmd \<and> hd cmd = CHR ''j'' \<and> \<not> list_ex isdigit cmd \<longrightarrow>
        viewer_step N st cmd = Continue st)
   \<and> (cmd \<noteq> [] \<and> \<not> List.member literal_commands cmd \<and> \<not> isspace (hd cmd)
        \<and> \<not> isdigit (hd cmd) \<and> hd cmd \<noteq> CHR ''-'' \<and> hd cmd \<noteq> CHR ''+'' \<and> hd cmd \<noteq> CHR ''j'' \<longrightarrow>
        viewer_step N st cmd = Continue st)
   \<and> (line \<noteq> [] \<and> \<not> List.member literal_commands (trim_leading line)
        \<and> (\<forall>u. stoi (number_text (trim_leading line)) = Inr u \<longrightarrow> u < 1 \<or> N < u) \<longrightarrow>
        viewer_step N st line = Continue st)
   \<and> (line \<noteq> [] \<and> \<not> List.member literal_commands (trim_leading line)
        \<and> stoi (number_text (trim_leading line)) = Inr v \<and> 1 \<le> v \<and> v \<le> N \<longrightarrow>
        viewer_step N st line = Continue (st\<lparr>idx := v - 1, showAnswer := False\<rparr>))"
proof (intro conjI impI)
  show "viewer_step N st [] = Continue st"
    by (simp add: viewer_step_def)
next
  assume a: "(t < 1 \<or> N < t)
    \<and> (cmd = ''j '' @ to_string t \<or> cmd = ''jump '' @ to_string t \<or> cmd = to_string t)"
  then have "cmd = ''j '' @ to_string t \<or> cmd = ''jump '' @ to_string t \<or> cmd = to_string t"
    by blast
  then have "viewer_step N st cmd =
      (if t \<le> INT_MAX then Continue (jump_to N st t) else Continue st)"
    by (rule viewer_step_card_number)
  moreover from a have "jump_to N st t = st" by (auto simp: jump_to_def)
  ultimately show "viewer_step N st cmd = Continue st" by simp
next
  assume a: "3 \<le> length cmd \<and> hd cmd = CHR ''j'' \<and> \<not> list_ex isdigit cmd"
  then have "2 < length cmd" "take 1 cmd = ''j''"
    by (cases cmd; simp)+
  then have "viewer_step N st cmd =
      (case stoi (filter (\<lambda>c. isdigit c \<or> c = CHR ''-'') cmd) of
         Inl e \<Rightarrow> Continue st
       | Inr t \<Rightarrow> Continue (jump_to N st t))"
    by (rule viewer_step_jump)
  moreover from a have "\<not> list_ex isdigit (filter (\<lambda>c. isdigit c \<or> c = CHR ''-'') cmd)"
    by (auto simp: list_ex_iff)
  then have "stoi (filter (\<lambda>c. isdigit c \<or> c = CHR ''-'') cmd) = Inl (invalid_argument ''stoi'')"
    by (rule stoi_no_digit)
  ultimately show "viewer_step N st cmd = Continue st" by simp
next
  assume a: "cmd \<noteq> [] \<and> \<not> List.member literal_commands cmd \<and> \<not> isspace (hd cmd)
    \<and> \<not> isdigit (hd cmd) \<and> hd cmd \<noteq> CHR ''-'' \<and> hd cmd \<noteq> CHR ''+'' \<and> hd cmd \<noteq> CHR ''j''"
  then have "\<not> is_blank (hd cmd)" by (auto simp: is_blank_def isspace_def)
  with a have trim: "trim_leading cmd = cmd" by (simp add: trim_leading_nonblank)
  from a have "take 1 cmd \<noteq> ''j''" by (cases cmd) auto
  with a trim have "viewer_step N st cmd =
      (case stoi (trim_leading cmd) of
         Inl e \<Rightarrow> Continue st
       | Inr t \<Rightarrow> Continue (jump_to N st t))"
    by (intro viewer_step_number) simp_all
  moreover from a have "stoi cmd = Inl (invalid_argument ''stoi'')"
    by (intro stoi_no_number) simp_all
  ultimately show "viewer_step N st cmd = Continue st" by (simp add: trim)
next
  assume a: "line \<noteq> [] \<and> \<not> List.member literal_commands (trim_leading line)
    \<and> (\<forall>u. stoi (number_text (trim_leading line)) = Inr u \<longrightarrow> u < 1 \<or> N < u)"
  then have "viewer_step N st line =
      (case stoi (number_text (trim_leading line)) of
         Inl e \<Rightarrow> Continue st
       | Inr t \<Rightarrow> Continue (jump_to N st t))"
    by (intro viewer_step_number_text) simp_all
  moreover from a have "\<And>u. stoi (number_text (trim_leading line)) = Inr u \<Longrightarrow> jump_to N st u = st"
    by (auto simp: jump_to_def)
  ultimately show "viewer_step N st line = Continue st"
    by (cases "stoi (number_text (trim_leading line))") simp_all
next
  assume a: "line \<noteq> [] \<and> \<not> List.member literal_commands (trim_leading line)
    \<and> stoi (number_text (trim_leading line)) = Inr v \<and> 1 \<le> v \<and> v \<le> N"
  then have "viewer_step N st line =
      (case stoi (number_text (trim_leading line)) of
         Inl e \<Rightarrow> Continue st
       | Inr t \<Rightarrow> Continue (jump_to N st t))"
    by (intro viewer_step_number_text) simp_all
  with a show "viewer_step N st line = Continue (st\<lparr>idx := v - 1, showAnswer := False\<rparr>)"
    by (simp add: jump_to_def)
qed

theorem ignored_lines_keep_state_witness:
  "viewer_step 3 \<lparr>idx = 1, showAnswer = True, rng = (\<lambda>a b k. a)\<rparr> (''jump '' @ to_string 0)
     = Continue \<lparr>idx = 1, showAnswer = True, rng = (\<lambda>a b k. a)\<rparr>
   \<and> viewer_step 3 \<lparr>idx = 1, showAnswer = True, rng = (\<lambda>a b k. a)\<rparr> (''jump '' @ to_string 4)
     = Continue \<lparr>idx = 1, showAnswer = True, rng = (\<lambda>a b k. a)\<rparr>
   \<and> viewer_step 3 \<lparr>idx = 1, showAnswer = True, rng = (\<lambda>a b k. a)\<rparr> ''jump abc''
     = Continue \<lparr>idx = 1, showAnswer = True, rng = (\<lambda>a b k. a)\<rparr>
   \<and> viewer_step 3 \<lparr>idx = 1, showAnswer = True, rng = (\<lambda>a b k. a)\<rparr> ''hello''
     = Continue \<lparr>idx = 1, showAnswer = True, rng = (\<lambda>a b k. a)\<rparr>
   \<and> viewer_step 3 \<lparr>idx = 1, showAnswer = True, rng = (\<lambda>a b k. a)\<rparr> ''jump x3''
     = Continue \<lparr>idx = 2, showAnswer = False, rng = (\<lambda>a b k. a)\<rparr>
   \<and> viewer_step 3 \<lparr>idx = 0, showAnswer = True, rng = (\<lambda>a b k. a)\<rparr> ''2x''
     = Continue \<lparr>idx = 1, showAnswer = False, rng = (\<lambda>a b k. a)\<rparr>"
proof -
  let ?st = "\<lparr>idx = 1, showAnswer = True, rng = (\<lambda>a b k. a)\<rparr>"
  let ?fst_card = "\<lparr>idx = 0, showAnswer = True, rng = (\<lambda>a b k. a)\<rparr>"
  have a: "viewer_step 3 ?st (''jump '' @ to_string 0) = Continue ?st"
    using ignored_lines_keep_state [of 3 ?st 0 "''jump '' @ to_string 0" "[]" 0] by simp
  have b: "viewer_step 3 ?st (''jump '' @ to_string 4) = Continue ?st"
    using ignored_lines_keep_state [of 3 ?st 4 "''jump '' @ to_string 4" "[]" 0] by simp
  have "3 \<le> length ''jump abc'' \<and> hd ''jump abc'' = CHR ''j'' \<and> \<not> list_ex isdigit ''jump abc''"
    by (simp add: isdigit_def)
  with ignored_lines_keep_state [of 3 ?st 0 "''jump abc''" "[]" 0]
  have c: "viewer_step 3 ?st ''jump abc'' = Continue ?st"
    by blast
  have "''hello'' \<noteq> [] \<and> \<not> List.member literal_commands ''hello'' \<and> \<not> isspace (hd ''hello'')
      \<and> \<not> isdigit (hd ''hello'') \<and> hd ''hello'' \<noteq> CHR ''-'' \<and> hd ''hello'' \<noteq> CHR ''+''
      \<and> hd ''hello'' \<noteq> CHR ''j''"
    by (simp add: literal_commands_def isspace_def isdigit_def)
  with ignored_lines_keep_state [of 3 ?st 0 "''hello''" "[]" 0]
  have d: "viewer_step 3 ?st ''hello'' = Continue ?st"
    by blast
  have t1: "trim_leading ''jump x3'' = ''jump x3''" "trim_leading ''2x'' = ''2x''"
    by (simp_all add: trim_leading_def is_blank_def)
  have n1: "number_text ''jump x3'' = ''3''" "number_text ''2x'' = ''2x''"
    by (simp_all add: number_text_def isdigit_def)
  have s1: "stoi ''3'' = Inr 3" "stoi ''2x'' = Inr 2"
    by (simp_all add: isdigit_def isspace_def stoi_def digits_value_def digit_value_def
          INT_MIN_def INT_MAX_def)
  have "''jump x3'' \<noteq> [] \<and> \<not> List.member literal_commands (trim_leading ''jump x3'')
      \<and> stoi (number_text (trim_leading ''jump x3'')) = Inr 3 \<and> (1::int) \<le> 3 \<and> (3::int) \<le> 3"
    unfolding t1 n1 s1 by (simp add: literal_commands_def)
  with ignored_lines_keep_state [of 3 ?st 0 "[]" "''jump x3''" 3]
  have "viewer_step 3 ?st ''jump x3'' = Continue (?st\<lparr>idx := 3 - 1, showAnswer := False\<rparr>)"
    by blast
  then have e: "viewer_step 3 ?st ''jump x3'' = Continue \<lparr>idx = 2, showAnswer = False, rng = (\<lambda>a b k. a)\<rparr>"
    by simp
  have "''2x'' \<noteq> [] \<and> \<not> List.member literal_commands (trim_leading ''2x'')
      \<and> stoi (number_text (trim_leading ''2x'')) = Inr 2 \<and> (1::int) \<le> 2 \<and> (2::int) \<le> 3"
    unfolding t1 n1 s1 by (simp add: literal_commands_def)
  with ignored_lines_keep_state [of 3 ?fst_card 0 "[]" "''2x''" 2]
  have "viewer_step 3 ?fst_card ''2x'' = Continue (?fst_card\<lparr>idx := 2 - 1, showAnswer := False\<rparr>)"
    by blast
  then have f: "viewer_step 3 ?fst_card ''2x'' = Continue \<lparr>idx = 1, showAnswer = False, rng = (\<lambda>a b k. a)\<rparr>"
    by simp
  from a b c d e f show ?thesis by simp
qed

text \<open>
  Claim C4 as it was stated fails: \<open>jump x2\<close> is none of the listed command forms (its
  target \<open>x2\<close> is no number), and yet on a deck of three cards it moves from the first
  card to the second and hides the answer.
\<close>

theorem unlisted_line_changes_state:
  "\<not> listed_command ''jump x2''
   \<and> viewer_step 3 \<lparr>idx = 0, showAnswer = True, rng = (\<lambda>a b k. a)\<rparr> ''jump x2''
       = Continue \<lparr>idx = 1, showAnswer = False, rng = (\<lambda>a b k. a)\<rparr>"
proof -
  have "trim_leading ''jump x2'' = ''jump x2''"
    by (simp add: trim_leading_def is_blank_def)
  then have l: "\<not> listed_command ''jump x2''"
    by (simp add: listed_command_def literal_commands_def is_number_def isdigit_def)
  have "stoi (filter (\<lambda>c. isdigit c \<or> c = CHR ''-'') ''jump x2'') = Inr 2"
    by (simp add: isdigit_def isspace_def stoi_def digits_value_def digit_value_def
          INT_MIN_def INT_MAX_def)
  then have "viewer_step 3 \<lparr>idx = 0, showAnswer = True, rng = (\<lambda>a b k. a)\<rparr> ''jump x2''
      = Continue \<lparr>idx = 1, showAnswer = False, rng = (\<lambda>a b k. a)\<rparr>"
    by (simp add: viewer_step_jump jump_to_def)
  with l show ?thesis by simp
qed

subsection \<open>The index stays within the deck\<close>

lemma uniform_ok_shift: "uniform_ok g \<Longrightarrow> uniform_ok (\<lambda>a b k. g a b (Suc k))"
  by (simp add: uniform_ok_def)

lemma jump_to_index_ok: "index_ok N st \<Longrightarrow> index_ok N (jump_to N st t)"
  by (simp add: index_ok_def jump_to_def)

lemma viewer_step_index_ok:
  assumes ok: "index_ok N st" and step: "viewer_step N st line = Continue st'"
  shows "index_ok N st'"
proof (cases "line = []")
  case True
  with step ok show ?thesis by (simp add: viewer_step_def)
next
  case False
  from ok have N: "0 < N" and i: "0 \<le> idx st" "idx st < N" and g: "uniform_ok (rng st)"
    by (simp_all add: index_ok_def)
  let ?cmd = "trim_leading line"
  from False step have s: "viewer_step N st ?cmd = Continue st'"
    by (simp add: viewer_step_trim)
  show ?thesis
  proof (cases "List.member literal_commands ?cmd")
    case True
    then consider "?cmd = ''f'' \<or> ?cmd = ''flip''" | "?cmd = ''n'' \<or> ?cmd = ''next''"
      | "?cmd = ''p'' \<or> ?cmd = ''prev''" | "?cmd = ''r'' \<or> ?cmd = ''random''"
      | "?cmd = ''q'' \<or> ?cmd = ''quit''"
      by (auto simp: literal_commands_def)
    then show ?thesis
    proof cases
      case 1
      then have "viewer_step N st ?cmd = Continue (st\<lparr>showAnswer := \<not> showAnswer st\<rparr>)"
        by (rule viewer_step_flip)
      with s ok show ?thesis by (auto simp: index_ok_def)
    next
      case 2
      then have "viewer_step N st ?cmd =
          Continue (st\<lparr>idx := c_rem (idx st + 1) N, showAnswer := False\<rparr>)"
        by (rule viewer_step_next)
      moreover have "c_rem (idx st + 1) N = (idx st + 1) mod N"
        using i N by (intro c_rem_mod) simp_all
      ultimately show ?thesis using s N g by (auto simp: index_ok_def)
    next
      case 3
      then have "viewer_step N st ?cmd =
          Continue (st\<lparr>idx := c_rem (idx st - 1 + N) N, showAnswer := False\<rparr>)"
        by (rule viewer_step_prev)
      moreover have "c_rem (idx st - 1 + N) N = (idx st - 1 + N) mod N"
        using i N by (intro c_rem_mod) simp_all
      ultimately show ?thesis using s N g by (auto simp: index_ok_def)
    next
      case 4
      then have "viewer_step N st ?cmd =
          Continue (st\<lparr>idx := rng st 0 (N - 1) 0, showAnswer := False,
                       rng := (\<lambda>a b k. rng st a b (Suc k))\<rparr>)"
        by (rule viewer_step_random)
      moreover have "(0::int) \<le> N - 1" using N by simp
      with g have "0 \<le> rng st 0 (N - 1) 0 \<and> rng st 0 (N - 1) 0 \<le> N - 1"
        unfolding uniform_ok_def by blast
      then have "0 \<le> rng st 0 (N - 1) 0" "rng st 0 (N - 1) 0 < N" by simp_all
      moreover have "uniform_ok (\<lambda>a b k. rng st a b (Suc k))"
        using g by (rule uniform_ok_shift)
      ultimately show ?thesis
        using s by (auto simp: index_ok_def)
    next
      case 5
      then have "viewer_step N st ?cmd = Break" by (rule viewer_step_quit)
      with s show ?thesis by simp
    qed
  next
    case notlit: False
    with False have "viewer_step N st line =
        (case stoi (number_text ?cmd) of
           Inl e \<Rightarrow> Continue st
         | Inr t \<Rightarrow> Continue (jump_to N st t))"
      by (intro viewer_step_number_text)
    with step ok show ?thesis
      by (cases "stoi (number_text ?cmd)") (auto simp: jump_to_index_ok)
  qed
qed

lemma viewer_run_index_ok:
  "index_ok N st \<Longrightarrow> viewer_run N st cmds = Continue st' \<Longrightarrow> index_ok N st'"
proof (induction cmds arbitrary: st)
  case Nil
  then show ?case by simp
next
  case (Cons line cmds)
  then show ?case
    by (cases "viewer_step N st line") (auto dest: viewer_step_index_ok)
qed

lemma display_card_no_oob: "out_of_bounds_read \<notin> set (display_card c i n b)"
  by (simp add: display_card_def clear_screen_def)

lemma viewer_loop_no_oob:
  "index_ok (int (length deck)) st \<Longrightarrow> out_of_bounds_read \<notin> set (fst (viewer_loop deck st cin))"
proof (induction deck st cin rule: viewer_loop.induct)
  case (1 deck st cin)
  from "1.prems" have i: "\<not> (idx st < 0 \<or> int (length deck) \<le> idx st)"
    by (auto simp: index_ok_def)
  obtain r cin' where g: "getline cin = (r, cin')" by (cases "getline cin")
  show ?case
  proof (cases r)
    case None
    with i g show ?thesis
      by (subst viewer_loop.simps) (simp add: display_card_no_oob)
  next
    case (Some cmd)
    show ?thesis
    proof (cases "viewer_step (int (length deck)) st cmd")
      case Break
      with i g Some show ?thesis
        by (subst viewer_loop.simps) (simp add: display_card_no_oob)
    next
      case (Continue st')
      with "1.prems" have ok': "index_ok (int (length deck)) st'"
        by (auto dest: viewer_step_index_ok)
      have "out_of_bounds_read \<notin> set (fst (viewer_loop deck st' cin'))"
        using i g [symmetric] Some Continue ok' by (intro "1.IH") auto
      with i g Some Continue show ?thesis
        by (subst viewer_loop.simps) (auto simp: display_card_no_oob split: prod.splits)
    qed
  qed
qed

lemma run_flashcard_viewer_no_oob:
  assumes "flashcards deck \<noteq> []" "uniform_ok g"
  shows "out_of_bounds_read \<notin> set (fst (run_flashcard_viewer deck g cin))"
proof -
  from assms have "index_ok (int (length (flashcards deck))) \<lparr>idx = 0, showAnswer = False, rng = g\<rparr>"
    by (simp add: index_ok_def)
  then have "out_of_bounds_read \<notin>
      set (fst (viewer_loop (flashcards deck) \<lparr>idx = 0, showAnswer = False, rng = g\<rparr> cin))"
    by (rule viewer_loop_no_oob)
  with assms show ?thesis
    by (auto simp: run_flashcard_viewer_def clear_screen_def split: prod.splits)
qed

lemma run_flashcard_viewer_empty:
  "flashcards deck = [] \<Longrightarrow>
   run_flashcard_viewer deck g cin = ([Stdout (''No flashcards to view.'' @ eol)], cin)"
  by (simp add: run_flashcard_viewer_def)

text \<open>
  On a deck of at most \<open>2 ^ 30\<close> cards the sums that \<open>next\<close> and \<open>prev\<close> compute
  stay within the 32-bit \<^verbatim>\<open>int\<close>, so that the step on the integers is the step of the
  program.
\<close>

lemma index_sums_within_int:
  assumes "index_ok N st" "N \<le> 2 ^ 30"
  shows "INT_MIN \<le> idx st + 1 \<and> idx st + 1 \<le> INT_MAX
         \<and> INT_MIN \<le> idx st - 1 \<and> idx st - 1 \<le> INT_MAX
         \<and> INT_MIN \<le> idx st - 1 + N \<and> idx st - 1 + N \<le> INT_MAX"
  using assms by (simp add: index_ok_def INT_MIN_def INT_MAX_def)

text \<open>
  Claim C5. On a deck of \<open>N > 0\<close> cards (and at most \<open>2 ^ 30\<close>, so that the index
  arithmetic of the program does not overflow), with a generator that keeps the contract
  of \<^verbatim>\<open>uniform_int_distribution\<close>, every state reached from index 0 and a hidden answer
  by any sequence of input lines has its index between 0 and \<open>N - 1\<close>, and the viewer
  never reads a card outside the deck, whatever its input is. On an empty deck the viewer
  writes its notice and returns at once: it shows no card and reads no input.
\<close>

theorem viewer_index_always_valid:
  "(0 < N \<and> N \<le> 2 ^ 30 \<and> uniform_ok g
      \<and> viewer_run N \<lparr>idx = 0, showAnswer = False, rng = g\<rparr> cmds = Continue st \<longrightarrow>
      0 \<le> idx st \<and> idx st \<le> N - 1)
   \<and> (flashcards deck \<noteq> [] \<and> length (flashcards deck) \<le> 2 ^ 30 \<and> uniform_ok g \<longrightarrow>
        out_of_bounds_read \<notin> set (fst (run_flashcard_viewer deck g cin)))
   \<and> (flashcards deck = [] \<longrightarrow>
        run_flashcard_viewer deck g cin = ([Stdout (''No flashcards to view.'' @ eol)], cin))"
proof (intro conjI impI)
  assume a: "0 < N \<and> N \<le> 2 ^ 30 \<and> uniform_ok g
    \<and> viewer_run N \<lparr>idx = 0, showAnswer = False, rng = g\<rparr> cmds = Continue st"
  then have "index_ok N \<lparr>idx = 0, showAnswer = False, rng = g\<rparr>"
    by (simp add: index_ok_def)
  with a have "index_ok N st" by (blast intro: viewer_run_index_ok)
  then show "0 \<le> idx st" and "idx st \<le> N - 1" by (simp_all add: index_ok_def)
next
  assume "flashcards deck \<noteq> [] \<and> length (flashcards deck) \<le> 2 ^ 30 \<and> uniform_ok g"
  then show "out_of_bounds_read \<notin> set (fst (run_flashcard_viewer deck g cin))"
    by (simp add: run_flashcard_viewer_no_oob)
next
  assume "flashcards deck = []"
  then show "run_flashcard_viewer deck g cin = ([Stdout (''No flashcards to view.'' @ eol)], cin)"
    by (rule run_flashcard_viewer_empty)
qed

theorem viewer_index_always_valid_witness:
  "viewer_run 2 \<lparr>idx = 0, showAnswer = False, rng = (\<lambda>a b k. b)\<rparr> [''prev'', ''next'', ''random'']
     = Continue \<lparr>idx = 1, showAnswer = False, rng = (\<lambda>a b k. b)\<rparr>
   \<and> 0 \<le> idx \<lparr>idx = 1, showAnswer = False, rng = (\<lambda>a b k. b)\<rparr>
   \<and> idx \<lparr>idx = 1, showAnswer = False, rng = (\<lambda>a b k. b)\<rparr> \<le> 2 - 1
   \<and> out_of_bounds_read \<notin> set (fst (run_flashcard_viewer
         \<lparr>flashcards = [\<lparr>question = ''Q1'', answer = ''A1''\<rparr>]\<rparr> (\<lambda>a b k. b)
         \<lparr>buf = ''next'', eofbit = False, failbit = False\<rparr>))
   \<and> run_flashcard_viewer \<lparr>flashcards = []\<rparr> (\<lambda>a b k. b)
         \<lparr>buf = ''next'', eofbit = False, failbit = False\<rparr>
       = ([Stdout (''No flashcards to view.'' @ eol)],
          \<lparr>buf = ''next'', eofbit = False, failbit = False\<rparr>)"
proof -
  let ?g = "\<lambda>(a::int) (b::int) (k::nat). b"
  let ?deck = "\<lparr>flashcards = [\<lparr>question = ''Q1'', answer = ''A1''\<rparr>]\<rparr>"
  let ?cin = "\<lparr>buf = ''next'', eofbit = False, failbit = False\<rparr>"
  have g: "uniform_ok ?g" by (simp add: uniform_ok_def)
  have run: "viewer_run 2 \<lparr>idx = 0, showAnswer = False, rng = ?g\<rparr> [''prev'', ''next'', ''random'']
      = Continue \<lparr>idx = 1, showAnswer = False, rng = ?g\<rparr>"
    by (simp add: viewer_step_prev viewer_step_next viewer_step_random c_rem_def)
  note T = viewer_index_always_valid
    [of 2 ?g "[''prev'', ''next'', ''random'']" "\<lparr>idx = 1, showAnswer = False, rng = ?g\<rparr>"]
  have "(0::int) < 2 \<and> (2::int) \<le> 2 ^ 30" by simp
  with T [of ?deck ?cin] g run
  have a: "0 \<le> idx \<lparr>idx = 1, showAnswer = False, rng = ?g\<rparr>
      \<and> idx \<lparr>idx = 1, showAnswer = False, rng = ?g\<rparr> \<le> 2 - 1"
    by blast
  have "flashcards ?deck \<noteq> [] \<and> length (flashcards ?deck) \<le> 2 ^ 30" by simp
  with T [of ?deck ?cin] g
  have b: "out_of_bounds_read \<notin> set (fst (run_flashcard_viewer ?deck ?g ?cin))"
    by blast
  have "flashcards \<lparr>flashcards = []\<rparr> = []" by simp
  with T [of "\<lparr>flashcards = []\<rparr>" ?cin]
  have c: "run_flashcard_viewer \<lparr>flashcards = []\<rparr> ?g ?cin
      = ([Stdout (''No flashcards to view.'' @ eol)], ?cin)"
    by blast
  from run a b c show ?thesis by blast
qed

subsection \<open>Reading the fields of the reply\<close>

lemma bind_Inr [simp]: "bind (Inr v) f = f v"
  by (simp add: bind_def)

lemma bind_Inl [simp]: "bind (Inl e) f = Inl e"
  by (simp add: bind_def)

lemma is_type_error_simps [simp]:
  "is_type_error (Inl (json_type_error n m))" "\<not> is_type_error (Inr v)"
  by (simp_all add: is_type_error_def)

lemma is_type_error_bind:
  "is_type_error r \<Longrightarrow> is_type_error (bind r f)"
  by (cases r) (auto simp: is_type_error_def split: exn.splits)

lemma get_string_bad: "\<not> is_string v \<Longrightarrow> is_type_error (get_string v)"
  by (cases v) simp_all

lemma get_string_ok: "is_string v \<Longrightarrow> get_string v = Inr (string_of v)"
  by (cases v) simp_all

text \<open>\<^verbatim>\<open>value(key, "")\<close> on an object, and on anything else.\<close>

lemma value_string_ok:
  "is_object j \<Longrightarrow> string_or_missing j key \<Longrightarrow> value_string j key [] = Inr (string_field j key)"
  by (cases j) (auto simp: string_or_missing_def string_field_def get_string_ok split: option.splits)

lemma value_string_bad:
  "\<not> (is_object j \<and> string_or_missing j key) \<Longrightarrow> is_type_error (value_string j key [])"
  by (cases j) (auto simp: string_or_missing_def get_string_bad split: option.splits)

lemma for_each_ok:
  "\<forall>x\<in>set xs. f x = Inr (g x) \<Longrightarrow> for_each f xs = Inr (map g xs)"
  by (induction xs) simp_all

lemma for_each_bad:
  assumes "\<forall>x\<in>set xs. (\<exists>y. f x = Inr y) \<or> is_type_error (f x)"
    and "\<exists>x\<in>set xs. is_type_error (f x)"
  shows "is_type_error (for_each f xs)"
  using assms
proof (induction xs)
  case Nil
  then show ?case by simp
next
  case (Cons x xs)
  show ?case
  proof (cases "is_type_error (f x)")
    case True
    then show ?thesis by (simp add: is_type_error_bind)
  next
    case False
    with Cons.prems obtain y where y: "f x = Inr y" by auto
    from False Cons.prems have "\<exists>x\<in>set xs. is_type_error (f x)" by auto
    with Cons have "is_type_error (for_each f xs)" by auto
    with y show ?thesis by (simp add: is_type_error_bind)
  qed
qed

lemma array_field_items: "array_field j key f = for_each f (array_items j key)"
  by (simp add: array_field_def array_items_def split: option.splits json.splits)

lemma definition_of_json_ok:
  "is_object d \<and> string_or_missing d ''term'' \<and> string_or_missing d ''definition'' \<Longrightarrow>
   definition_of_json d =
     Inr \<lparr>def_term = string_field d ''term'', def_definition = string_field d ''definition''\<rparr>"
  by (simp add: definition_of_json_def value_string_ok)

lemma definition_of_json_bad:
  assumes "\<not> (is_object d \<and> string_or_missing d ''term'' \<and> string_or_missing d ''definition'')"
  shows "is_type_error (definition_of_json d)"
proof (cases "is_object d \<and> string_or_missing d ''term''")
  case True
  with assms have "is_type_error (value_string d ''definition'' [])"
    by (intro value_string_bad) simp
  with True show ?thesis
    by (simp add: definition_of_json_def value_string_ok is_type_error_bind)
next
  case False
  then have "is_type_error (value_string d ''term'' [])" by (rule value_string_bad)
  then show ?thesis by (simp add: definition_of_json_def is_type_error_bind)
qed

lemma flashcard_of_json_ok:
  "is_object fc \<and> string_or_missing fc ''question'' \<and> string_or_missing fc ''answer'' \<Longrightarrow>
   flashcard_of_json fc =
     Inr \<lparr>question = string_field fc ''question'', answer = string_field fc ''answer''\<rparr>"
  by (simp add: flashcard_of_json_def value_string_ok)

lemma flashcard_of_json_bad:
  assumes "\<not> (is_object fc \<and> string_or_missing fc ''question'' \<and> string_or_missing fc ''answer'')"
  shows "is_type_error (flashcard_of_json fc)"
proof (cases "is_object fc \<and> string_or_missing fc ''question''")
  case True
  with assms have "is_type_error (value_string fc ''answer'' [])"
    by (intro value_string_bad) simp
  with True show ?thesis
    by (simp add: flashcard_of_json_def value_string_ok is_type_error_bind)
next
  case False
  then have "is_type_error (value_string fc ''question'' [])" by (rule value_string_bad)
  then show ?thesis by (simp add: flashcard_of_json_def is_type_error_bind)
qed

text \<open>
  Claim C3, as amended. On every parsed JSON value the summary parser succeeds exactly
  when the value is an object whose \<open>summary\<close>, if present, is a string, whose
  \<open>key_points\<close>, if an array, holds strings only, and whose \<open>definitions\<close>, if an
  array, holds only objects whose \<open>term\<close> and \<open>definition\<close>, if present, are strings;
  the flashcard parser succeeds exactly when \<open>flashcards\<close>, if an array, holds only
  objects whose \<open>question\<close> and \<open>answer\<close>, if present, are strings. On success a
  missing string field reads as the empty string and a missing or non-array list field as
  the empty list. In every other case the parser fails with a type error of the JSON
  library.
\<close>

theorem parsers_default_missing_fields:
  "(summary_well_typed j \<longrightarrow>
      summary_of_json j =
        Inr \<lparr>summary = string_field j ''summary'',
             keyPoints = map string_of (array_items j ''key_points''),
             definitions =
               map (\<lambda>d. \<lparr>def_term = string_field d ''term'',
                          def_definition = string_field d ''definition''\<rparr>)
                 (array_items j ''definitions'')\<rparr>)
   \<and> (\<not> summary_well_typed j \<longrightarrow> is_type_error (summary_of_json j))
   \<and> (flashcards_well_typed j \<longrightarrow>
        flashcards_of_json j =
          Inr \<lparr>flashcards =
                 map (\<lambda>fc. \<lparr>question = string_field fc ''question'',
                             answer = string_field fc ''answer''\<rparr>)
                   (array_items j ''flashcards'')\<rparr>)
   \<and> (\<not> flashcards_well_typed j \<longrightarrow> is_type_error (flashcards_of_json j))"
proof (intro conjI impI)
  assume wt: "summary_well_typed j"
  then have s: "value_string j ''summary'' [] = Inr (string_field j ''summary'')"
    by (simp add: summary_well_typed_def value_string_ok)
  from wt have "\<forall>kp\<in>set (array_items j ''key_points''). get_string kp = Inr (string_of kp)"
    by (simp add: summary_well_typed_def list_all_iff get_string_ok)
  then have k: "array_field j ''key_points'' get_string
      = Inr (map string_of (array_items j ''key_points''))"
    unfolding array_field_items by (rule for_each_ok)
  from wt have "\<forall>d\<in>set (array_items j ''definitions''). definition_of_json d =
      Inr \<lparr>def_term = string_field d ''term'', def_definition = string_field d ''definition''\<rparr>"
    by (simp add: summary_well_typed_def list_all_iff definition_of_json_ok)
  then have d: "array_field j ''definitions'' definition_of_json
      = Inr (map (\<lambda>d. \<lparr>def_term = string_field d ''term'',
                          def_definition = string_field d ''definition''\<rparr>)
              (array_items j ''definitions''))"
    unfolding array_field_items by (rule for_each_ok)
  show "summary_of_json j =
        Inr \<lparr>summary = string_field j ''summary'',
             keyPoints = map string_of (array_items j ''key_points''),
             definitions =
               map (\<lambda>d. \<lparr>def_term = string_field d ''term'',
                          def_definition = string_field d ''definition''\<rparr>)
                 (array_items j ''definitions'')\<rparr>"
    by (simp add: summary_of_json_def s k d)
next
  assume nwt: "\<not> summary_well_typed j"
  show "is_type_error (summary_of_json j)"
  proof (cases "is_object j \<and> string_or_missing j ''summary''")
    case False
    then have "is_type_error (value_string j ''summary'' [])" by (rule value_string_bad)
    then show ?thesis by (simp add: summary_of_json_def is_type_error_bind)
  next
    case obj: True
    then have s: "value_string j ''summary'' [] = Inr (string_field j ''summary'')"
      by (simp add: value_string_ok)
    show ?thesis
    proof (cases "list_all is_string (array_items j ''key_points'')")
      case False
      have "is_type_error (for_each get_string (array_items j ''key_points''))"
      proof (rule for_each_bad)
        show "\<forall>x\<in>set (array_items j ''key_points'').
            (\<exists>y. get_string x = Inr y) \<or> is_type_error (get_string x)"
          using get_string_ok get_string_bad by blast
        show "\<exists>x\<in>set (array_items j ''key_points''). is_type_error (get_string x)"
          using False get_string_bad by (auto simp: list_all_iff)
      qed
      then show ?thesis
        by (simp add: summary_of_json_def s array_field_items is_type_error_bind)
    next
      case kps: True
      then have "\<forall>kp\<in>set (array_items j ''key_points''). get_string kp = Inr (string_of kp)"
        by (simp add: list_all_iff get_string_ok)
      then have k: "for_each get_string (array_items j ''key_points'')
          = Inr (map string_of (array_items j ''key_points''))"
        by (rule for_each_ok)
      have "is_type_error (for_each definition_of_json (array_items j ''definitions''))"
      proof (rule for_each_bad)
        show "\<forall>x\<in>set (array_items j ''definitions'').
            (\<exists>y. definition_of_json x = Inr y) \<or> is_type_error (definition_of_json x)"
          using definition_of_json_ok definition_of_json_bad by blast
        show "\<exists>x\<in>set (array_items j ''definitions''). is_type_error (definition_of_json x)"
          using nwt obj kps definition_of_json_bad
          by (auto simp: summary_well_typed_def list_all_iff)
      qed
      then show ?thesis
        by (simp add: summary_of_json_def s k array_field_items is_type_error_bind)
    qed
  qed
next
  assume wt: "flashcards_well_typed j"
  then have "\<forall>fc\<in>set (array_items j ''flashcards''). flashcard_of_json fc =
      Inr \<lparr>question = string_field fc ''question'', answer = string_field fc ''answer''\<rparr>"
    by (simp add: flashcards_well_typed_def list_all_iff flashcard_of_json_ok)
  then have "array_field j ''flashcards'' flashcard_of_json
      = Inr (map (\<lambda>fc. \<lparr>question = string_field fc ''question'',
                           answer = string_field fc ''answer''\<rparr>)
              (array_items j ''flashcards''))"
    unfolding array_field_items by (rule for_each_ok)
  then show "flashcards_of_json j =
          Inr \<lparr>flashcards =
                 map (\<lambda>fc. \<lparr>question = string_field fc ''question'',
                             answer = string_field fc ''answer''\<rparr>)
                   (array_items j ''flashcards'')\<rparr>"
    by (simp add: flashcards_of_json_def)
next
  assume nwt: "\<not> flashcards_well_typed j"
  have "is_type_error (for_each flashcard_of_json (array_items j ''flashcards''))"
  proof (rule for_each_bad)
    show "\<forall>x\<in>set (array_items j ''flashcards'').
        (\<exists>y. flashcard_of_json x = Inr y) \<or> is_type_error (flashcard_of_json x)"
      using flashcard_of_json_ok flashcard_of_json_bad by blast
    show "\<exists>x\<in>set (array_items j ''flashcards''). is_type_error (flashcard_of_json x)"
      using nwt flashcard_of_json_bad by (auto simp: flashcards_well_typed_def list_all_iff)
  qed
  then show "is_type_error (flashcards_of_json j)"
    by (simp add: flashcards_of_json_def array_field_items is_type_error_bind)
qed

theorem parsers_default_missing_fields_witness:
  "summary_of_json (JObject []) = Inr \<lparr>summary = [], keyPoints = [], definitions = []\<rparr>
   \<and> flashcards_of_json
         (JObject [(''flashcards'',
            JArray [JObject [(''question'', JString ''Q1''), (''answer'', JString ''A1'')],
                    JObject [(''question'', JString ''Q2'')]])])
       = Inr \<lparr>flashcards = [\<lparr>question = ''Q1'', answer = ''A1''\<rparr>,
                             \<lparr>question = ''Q2'', answer = []\<rparr>]\<rparr>
   \<and> flashcards_of_json (JObject [(''flashcards'', JString ''none'')]) = Inr \<lparr>flashcards = []\<rparr>
   \<and> is_type_error (summary_of_json (JObject [(''key_points'', JArray [JInt 1])]))"
proof -
  let ?deck = "JObject [(''flashcards'',
      JArray [JObject [(''question'', JString ''Q1''), (''answer'', JString ''A1'')],
              JObject [(''question'', JString ''Q2'')]])]"
  have "summary_well_typed (JObject [])"
    by (simp add: summary_well_typed_def string_or_missing_def array_items_def)
  with parsers_default_missing_fields [of "JObject []"]
  have a: "summary_of_json (JObject []) = Inr \<lparr>summary = [], keyPoints = [], definitions = []\<rparr>"
    by (simp add: string_field_def array_items_def)
  have "flashcards_well_typed ?deck"
    by (simp add: flashcards_well_typed_def string_or_missing_def array_items_def)
  with parsers_default_missing_fields [of ?deck]
  have b: "flashcards_of_json ?deck
      = Inr \<lparr>flashcards = [\<lparr>question = ''Q1'', answer = ''A1''\<rparr>,
                            \<lparr>question = ''Q2'', answer = []\<rparr>]\<rparr>"
    by (simp add: string_field_def array_items_def)
  have "flashcards_well_typed (JObject [(''flashcards'', JString ''none'')])"
    by (simp add: flashcards_well_typed_def array_items_def)
  with parsers_default_missing_fields [of "JObject [(''flashcards'', JString ''none'')]"]
  have c: "flashcards_of_json (JObject [(''flashcards'', JString ''none'')])
      = Inr \<lparr>flashcards = []\<rparr>"
    by (simp add: array_items_def)
  have "\<not> summary_well_typed (JObject [(''key_points'', JArray [JInt 1])])"
    by (simp add: summary_well_typed_def array_items_def)
  with parsers_default_missing_fields [of "JObject [(''key_points'', JArray [JInt 1])]"]
  have d: "is_type_error (summary_of_json (JObject [(''key_points'', JArray [JInt 1])]))"
    by blast
  from a b c d show ?thesis by blast
qed

text \<open>
  Claim C3 as it was stated fails. The texts \<^verbatim>\<open>{"summary": 5}\<close>, \<^verbatim>\<open>{"key_points": [1]}\<close> and
  \<^verbatim>\<open>{"flashcards": [1]}\<close> are valid JSON; on the values they parse to, the parsers throw
  the type errors 302 and 306 of the library.
\<close>

theorem malformed_field_fails_parse:
  "summary_of_json (JObject [(''summary'', JInt 5)])
     = Inl (json_type_error 302
         ''[json.exception.type_error.302] type must be string, but is number'')
   \<and> summary_of_json (JObject [(''key_points'', JArray [JInt 1])])
     = Inl (json_type_error 302
         ''[json.exception.type_error.302] type must be string, but is number'')
   \<and> flashcards_of_json (JObject [(''flashcards'', JArray [JInt 1])])
     = Inl (json_type_error 306
         ''[json.exception.type_error.306] cannot use value() with number'')"
  by (simp add: summary_of_json_def flashcards_of_json_def array_field_def
        flashcard_of_json_def)

subsection \<open>The choice\<close>

lemma getline_not_good: "\<not> good cin \<Longrightarrow> getline cin = (None, cin\<lparr>failbit := True\<rparr>)"
  by (simp add: getline_def)

lemma ignore_line_failed: "failbit cin \<Longrightarrow> failbit (ignore_line cin)"
  by (simp add: ignore_line_def good_def)

lemma read_study_text_failed:
  "failbit cin \<Longrightarrow>
   read_study_text cin = Inl [Stderr (''No input detected. Exiting.'' @ eol), curl_global_cleanup]"
  by (simp add: read_study_text_def getline_not_good good_def)

lemma extract_int_no_integer:
  assumes "no_integer_first stdin"
  shows "failbit (snd (extract_int v \<lparr>buf = stdin, eofbit = False, failbit = False\<rparr>))"
proof (cases "dropWhile isspace stdin = []")
  case True
  then show ?thesis by (simp add: extract_int_def good_def)
next
  case False
  obtain neg s where s: "strip_sign (dropWhile isspace stdin) = (neg, s)"
    by (cases "strip_sign (dropWhile isspace stdin)")
  with assms have "takeWhile isdigit s = []" by (simp add: no_integer_first_def)
  with False s show ?thesis by (simp add: extract_int_def good_def Let_def)
qed

lemma main_try_failed_choice:
  assumes "failbit (snd (extract_int 3 cin))"
  shows "main_try w cin =
    (menu @ paste_notice @ [Stderr (''No input detected. Exiting.'' @ eol), curl_global_cleanup],
     Returned 0)"
proof -
  obtain choice cin1 where e: "extract_int 3 cin = (choice, cin1)"
    by (cases "extract_int 3 cin")
  with assms have "failbit (ignore_line cin1)" by (simp add: ignore_line_failed)
  then have "read_study_text (ignore_line cin1) =
      Inl [Stderr (''No input detected. Exiting.'' @ eol), curl_global_cleanup]"
    by (rule read_study_text_failed)
  with e show ?thesis by (simp add: main_try_def)
qed

text \<open>
  Claim C1 is what the source's comment on \<^verbatim>\<open>int choice = 3\<close> promises, and the program does
  not keep it. When the first token of the input is no integer, the extraction sets
  \<open>failbit\<close> (and, since C++11, writes 0 to \<open>choice\<close>); nothing clears it, so
  \<^verbatim>\<open>ignore\<close> and the first \<^verbatim>\<open>getline\<close> fail, and the program reports that there is no input
  and returns: it runs neither the summary flow nor the flashcard flow, in every world.
\<close>

theorem unparseable_choice_runs_no_flow:
  assumes "no_integer_first stdin"
  shows "main w stdin =
    (curl_global_init # menu @ paste_notice
       @ [Stderr (''No input detected. Exiting.'' @ eol), curl_global_cleanup], 0)"
proof -
  from assms have "failbit (snd (extract_int 3 \<lparr>buf = stdin, eofbit = False, failbit = False\<rparr>))"
    by (rule extract_int_no_integer)
  then have "main_try w \<lparr>buf = stdin, eofbit = False, failbit = False\<rparr> =
    (menu @ paste_notice @ [Stderr (''No input detected. Exiting.'' @ eol), curl_global_cleanup],
     Returned 0)"
    by (rule main_try_failed_choice)
  then show ?thesis by (simp add: main_def)
qed

theorem unparseable_choice_runs_no_flow_witness:
  "no_integer_first (''abc'' @ eol @ ''Photosynthesis converts light to energy.'' @ eol @ eol)
   \<and> main offline_world (''abc'' @ eol @ ''Photosynthesis converts light to energy.'' @ eol @ eol) =
       (curl_global_init # menu @ paste_notice
          @ [Stderr (''No input detected. Exiting.'' @ eol), curl_global_cleanup], 0)"
proof -
  have "no_integer_first (''abc'' @ eol @ ''Photosynthesis converts light to energy.'' @ eol @ eol)"
    by (simp add: no_integer_first_def isspace_def isdigit_def)
  then show ?thesis
    using unparseable_choice_runs_no_flow by blast
qed

subsection \<open>The study text\<close>

lemma good_stdin_lines: "good (stdin_lines ls)"
  by (simp add: good_def stdin_lines_def)

lemma getline_stdin_lines:
  assumes "CHR 0x0A \<notin> set l"
  shows "getline (stdin_lines (l # ls)) = (Some l, stdin_lines ls)"
proof -
  have "\<forall>c\<in>set l. not_newline c"
    using assms by (auto simp: not_newline_def)
  then have "takeWhile not_newline (l @ CHR 0x0A # concat (map (\<lambda>l. l @ eol) ls)) = l"
    and "dropWhile not_newline (l @ CHR 0x0A # concat (map (\<lambda>l. l @ eol) ls))
         = CHR 0x0A # concat (map (\<lambda>l. l @ eol) ls)"
    by (simp_all add: takeWhile_append2 dropWhile_append2 not_newline_def)
  then show ?thesis
    by (simp add: getline_def good_def stdin_lines_def eol_def)
qed








subsection \<open>How the program ends\<close>

lemma flow_event_facts:
  "list_all flow_event evs \<Longrightarrow> count_list evs curl_global_cleanup = 0"
  "list_all flow_event evs \<Longrightarrow> filter is_Stderr evs = []"
proof (induction evs)
  case Nil
  { case 1 show ?case by simp }
  { case 2 show ?case by simp }
next
  case (Cons e evs)
  { case 1 with Cons show ?case by (cases e) simp_all }
  { case 2 with Cons show ?case by (cases e) simp_all }
qed

lemma menu_flow: "list_all flow_event menu"
  by (simp add: menu_def)

lemma paste_notice_flow: "list_all flow_event paste_notice"
  by (simp add: paste_notice_def)

lemma display_card_flow: "list_all flow_event (display_card c i n b)"
  by (simp add: display_card_def clear_screen_def)

lemma print_summary_flow: "list_all flow_event (print_summary s)"
  by (auto simp: print_summary_def list_all_iff)

lemma viewer_loop_flow: "list_all flow_event (fst (viewer_loop deck st cin))"
proof (induction deck st cin rule: viewer_loop.induct)
  case (1 deck st cin)
  show ?case
  proof (cases "idx st < 0 \<or> int (length deck) \<le> idx st")
    case True
    then show ?thesis by (subst viewer_loop.simps) simp
  next
    case i: False
    obtain r cin' where g: "getline cin = (r, cin')" by (cases "getline cin")
    show ?thesis
    proof (cases r)
      case None
      with i g show ?thesis
        by (subst viewer_loop.simps) (simp add: display_card_flow)
    next
      case (Some cmd)
      show ?thesis
      proof (cases "viewer_step (int (length deck)) st cmd")
        case Break
        with i g Some show ?thesis
          by (subst viewer_loop.simps) (simp add: display_card_flow)
      next
        case (Continue st')
        have "list_all flow_event (fst (viewer_loop deck st' cin'))"
          using i g [symmetric] Some Continue by (intro "1.IH") auto
        with i g Some Continue show ?thesis
          by (subst viewer_loop.simps) (auto simp: display_card_flow split: prod.splits)
      qed
    qed
  qed
qed

lemma run_flashcard_viewer_flow: "list_all flow_event (fst (run_flashcard_viewer deck g cin))"
  using viewer_loop_flow [of "flashcards deck" "\<lparr>idx = 0, showAnswer = False, rng = g\<rparr>" cin]
  by (auto simp: run_flashcard_viewer_def clear_screen_def split: prod.splits)

lemma summary_flow_events: "summary_flow w choice t = Inr out \<Longrightarrow> list_all flow_event out"
  by (cases "summarize_content w t")
     (auto simp: summary_flow_def print_summary_flow split: if_splits)

lemma flashcard_flow_events:
  "flashcard_flow w choice t cin = Inr out \<Longrightarrow> list_all flow_event out"
  by (cases "generate_flashcards w t")
     (auto simp: flashcard_flow_def run_flashcard_viewer_flow split: if_splits)

lemma flashcard_flow_no_oob:
  assumes "flashcard_flow w choice t cin = Inr out" "uniform_ok (random_draws w)"
  shows "out_of_bounds_read \<notin> set out"
proof (cases "generate_flashcards w t")
  case (Inl e)
  with assms show ?thesis by (auto simp: flashcard_flow_def split: if_splits)
next
  case (Inr f)
  show ?thesis
  proof (cases "flashcards f = []")
    case True
    with Inr assms show ?thesis
      by (auto simp: flashcard_flow_def run_flashcard_viewer_empty split: if_splits)
  next
    case False
    then have "out_of_bounds_read \<notin> set (fst (run_flashcard_viewer f (random_draws w) cin))"
      using assms(2) by (rule run_flashcard_viewer_no_oob)
    with Inr assms show ?thesis by (auto simp: flashcard_flow_def split: if_splits)
  qed
qed

lemma summary_flow_no_oob: "summary_flow w choice t = Inr out \<Longrightarrow> out_of_bounds_read \<notin> set out"
  by (cases "summarize_content w t")
     (auto simp: summary_flow_def print_summary_def split: if_splits)

lemma read_study_text_exit:
  "read_study_text cin = Inl evs \<Longrightarrow> \<exists>m. evs = [Stderr m, curl_global_cleanup]"
  by (auto simp: read_study_text_def split: prod.splits option.splits if_splits)

text \<open>The three ways the \<^verbatim>\<open>try\<close> block ends, and what it has written by then.\<close>

lemma main_try_cases:
  "(\<exists>m. main_try w cin = (menu @ paste_notice @ [Stderr m, curl_global_cleanup], Returned 0))
   \<or> (\<exists>evs ex. main_try w cin = (evs, Threw ex) \<and> list_all flow_event evs
        \<and> (uniform_ok (random_draws w) \<longrightarrow> out_of_bounds_read \<notin> set evs))
   \<or> (\<exists>evs. main_try w cin = (evs, Completed) \<and> list_all flow_event evs
        \<and> (uniform_ok (random_draws w) \<longrightarrow> out_of_bounds_read \<notin> set evs))"
proof -
  obtain choice cin1 where e: "extract_int 3 cin = (choice, cin1)"
    by (cases "extract_int 3 cin")
  have mp: "out_of_bounds_read \<notin> set menu" "out_of_bounds_read \<notin> set paste_notice"
    by (simp_all add: menu_def paste_notice_def)
  show ?thesis
  proof (cases "read_study_text (ignore_line cin1)")
    case (Inl evs)
    then obtain m where "evs = [Stderr m, curl_global_cleanup]"
      using read_study_text_exit by blast
    with e Inl show ?thesis by (simp add: main_try_def)
  next
    case (Inr p)
    then obtain userText cin2 where r: "read_study_text (ignore_line cin1) = Inr (userText, cin2)"
      by (cases p) simp
    show ?thesis
    proof (cases "summary_flow w choice userText")
      case (Inl ex)
      with e r mp show ?thesis by (simp add: main_try_def menu_flow paste_notice_flow)
    next
      case s: (Inr out1)
      then have o1: "list_all flow_event out1" "out_of_bounds_read \<notin> set out1"
        by (simp_all add: summary_flow_events summary_flow_no_oob)
      show ?thesis
      proof (cases "flashcard_flow w choice userText cin2")
        case (Inl ex)
        with e r s o1 mp show ?thesis by (simp add: main_try_def menu_flow paste_notice_flow)
      next
        case f: (Inr out2)
        then have "list_all flow_event out2"
          and "uniform_ok (random_draws w) \<longrightarrow> out_of_bounds_read \<notin> set out2"
          by (simp_all add: flashcard_flow_events flashcard_flow_no_oob)
        with e r s f o1 mp show ?thesis by (simp add: main_try_def menu_flow paste_notice_flow)
      qed
    qed
  qed
qed

text \<open>
  Claim C10. In every world and on every input the program returns 0; the last thing it
  does is the one call of \<^verbatim>\<open>curl_global_cleanup\<close>; it writes at most one message to the
  error stream. When the \<^verbatim>\<open>try\<close> block throws, what it had written is followed by the
  one line \<open>Error: \<close> and the exception's message, then the cleanup: so for an exception
  of the summary stage and for one of the flashcard stage. With random draws inside their
  bounds and decks of at most \<open>2 ^ 30\<close> cards, the viewer never reads outside the deck.
\<close>

theorem main_always_exits_zero:
  "snd (main w stdin) = 0
   \<and> count_list (fst (main w stdin)) curl_global_cleanup = 1
   \<and> last (fst (main w stdin)) = curl_global_cleanup
   \<and> length (filter is_Stderr (fst (main w stdin))) \<le> 1
   \<and> (main_try w \<lparr>buf = stdin, eofbit = False, failbit = False\<rparr> = (evs, Threw ex) \<longrightarrow>
        main w stdin =
          (curl_global_init # evs @ [Stderr (''Error: '' @ what ex @ eol), curl_global_cleanup], 0)
        \<and> filter is_Stderr evs = [])
   \<and> (extract_int 3 \<lparr>buf = stdin, eofbit = False, failbit = False\<rparr> = (choice, cin1)
        \<and> read_study_text (ignore_line cin1) = Inr (userText, cin2)
        \<and> (choice = 1 \<or> choice = 3) \<and> summarize_content w userText = Inl ex \<longrightarrow>
        main w stdin =
          (curl_global_init # menu @ paste_notice
             @ [Stderr (''Error: '' @ what ex @ eol), curl_global_cleanup], 0))
   \<and> (extract_int 3 \<lparr>buf = stdin, eofbit = False, failbit = False\<rparr> = (choice, cin1)
        \<and> read_study_text (ignore_line cin1) = Inr (userText, cin2)
        \<and> summary_flow w choice userText = Inr out1
        \<and> (choice = 2 \<or> choice = 3) \<and> generate_flashcards w userText = Inl ex \<longrightarrow>
        main w stdin =
          (curl_global_init # menu @ paste_notice @ out1
             @ [Stderr (''Error: '' @ what ex @ eol), curl_global_cleanup], 0))
   \<and> (uniform_ok (random_draws w)
        \<and> (\<forall>t f. generate_flashcards w t = Inr f \<longrightarrow> length (flashcards f) \<le> 2 ^ 30) \<longrightarrow>
        out_of_bounds_read \<notin> set (fst (main w stdin)))"
proof -
  let ?cin = "\<lparr>buf = stdin, eofbit = False, failbit = False\<rparr>"
  have mp: "list_all flow_event (menu @ paste_notice)"
    "out_of_bounds_read \<notin> set (menu @ paste_notice)"
    by (simp_all add: menu_def paste_notice_def)
  from main_try_cases [of w ?cin]
  consider m where
      "main_try w ?cin = (menu @ paste_notice @ [Stderr m, curl_global_cleanup], Returned 0)"
    | es e where "main_try w ?cin = (es, Threw e)" "list_all flow_event es"
        "uniform_ok (random_draws w) \<longrightarrow> out_of_bounds_read \<notin> set es"
    | es where "main_try w ?cin = (es, Completed)" "list_all flow_event es"
        "uniform_ok (random_draws w) \<longrightarrow> out_of_bounds_read \<notin> set es"
    by blast
  then have general: "snd (main w stdin) = 0
      \<and> count_list (fst (main w stdin)) curl_global_cleanup = 1
      \<and> last (fst (main w stdin)) = curl_global_cleanup
      \<and> length (filter is_Stderr (fst (main w stdin))) \<le> 1
      \<and> (uniform_ok (random_draws w) \<longrightarrow> out_of_bounds_read \<notin> set (fst (main w stdin)))"
  proof cases
    case 1
    have "count_list (menu @ paste_notice) curl_global_cleanup = 0"
      "filter is_Stderr (menu @ paste_notice) = []"
      using mp(1) by (simp_all only: flow_event_facts)
    with 1 mp(2) show ?thesis by (simp add: main_def)
  next
    case 2
    then have "count_list es curl_global_cleanup = 0" "filter is_Stderr es = []"
      by (simp_all only: flow_event_facts)
    with 2 show ?thesis by (simp add: main_def)
  next
    case 3
    then have "count_list es curl_global_cleanup = 0" "filter is_Stderr es = []"
      by (simp_all only: flow_event_facts)
    with 3 show ?thesis by (simp add: main_def)
  qed
  have threw: "main_try w ?cin = (evs, Threw ex) \<longrightarrow>
        main w stdin =
          (curl_global_init # evs @ [Stderr (''Error: '' @ what ex @ eol), curl_global_cleanup], 0)
        \<and> filter is_Stderr evs = []"
  proof
    assume t: "main_try w ?cin = (evs, Threw ex)"
    with main_try_cases [of w ?cin] have "list_all flow_event evs" by auto
    then have "filter is_Stderr evs = []" by (rule flow_event_facts(2))
    with t show "main w stdin =
          (curl_global_init # evs @ [Stderr (''Error: '' @ what ex @ eol), curl_global_cleanup], 0)
        \<and> filter is_Stderr evs = []"
      by (simp add: main_def)
  qed
  have summary: "extract_int 3 ?cin = (choice, cin1)
        \<and> read_study_text (ignore_line cin1) = Inr (userText, cin2)
        \<and> (choice = 1 \<or> choice = 3) \<and> summarize_content w userText = Inl ex \<longrightarrow>
        main w stdin =
          (curl_global_init # menu @ paste_notice
             @ [Stderr (''Error: '' @ what ex @ eol), curl_global_cleanup], 0)"
  proof
    assume a: "extract_int 3 ?cin = (choice, cin1)
        \<and> read_study_text (ignore_line cin1) = Inr (userText, cin2)
        \<and> (choice = 1 \<or> choice = 3) \<and> summarize_content w userText = Inl ex"
    then have "summary_flow w choice userText = Inl ex"
      by (auto simp: summary_flow_def)
    with a have "main_try w ?cin = (menu @ paste_notice, Threw ex)"
      by (simp add: main_try_def)
    then show "main w stdin =
          (curl_global_init # menu @ paste_notice
             @ [Stderr (''Error: '' @ what ex @ eol), curl_global_cleanup], 0)"
      by (simp add: main_def)
  qed
  have cards: "extract_int 3 ?cin = (choice, cin1)
        \<and> read_study_text (ignore_line cin1) = Inr (userText, cin2)
        \<and> summary_flow w choice userText = Inr out1
        \<and> (choice = 2 \<or> choice = 3) \<and> generate_flashcards w userText = Inl ex \<longrightarrow>
        main w stdin =
          (curl_global_init # menu @ paste_notice @ out1
             @ [Stderr (''Error: '' @ what ex @ eol), curl_global_cleanup], 0)"
  proof
    assume a: "extract_int 3 ?cin = (choice, cin1)
        \<and> read_study_text (ignore_line cin1) = Inr (userText, cin2)
        \<and> summary_flow w choice userText = Inr out1
        \<and> (choice = 2 \<or> choice = 3) \<and> generate_flashcards w userText = Inl ex"
    then have "flashcard_flow w choice userText cin2 = Inl ex"
      by (auto simp: flashcard_flow_def)
    with a have "main_try w ?cin = (menu @ paste_notice @ out1, Threw ex)"
      by (simp add: main_try_def)
    then show "main w stdin =
          (curl_global_init # menu @ paste_notice @ out1
             @ [Stderr (''Error: '' @ what ex @ eol), curl_global_cleanup], 0)"
      by (simp add: main_def)
  qed
  from general threw summary cards show ?thesis by blast
qed

theorem main_always_exits_zero_witness:
  "main offline_world (''1'' @ eol @ ''Photosynthesis converts light to energy.'' @ eol @ eol) =
     (curl_global_init # menu @ paste_notice
        @ [Stderr (''Error: OPENAI_API_KEY environment variable not set.'' @ eol),
           curl_global_cleanup], 0)
   \<and> snd (main offline_world (''1'' @ eol @ ''Photosynthesis converts light to energy.'' @ eol @ eol)) = 0"
proof -
  let ?text = "''Photosynthesis converts light to energy.''"
  let ?stdin = "''1'' @ eol @ ?text @ eol @ eol"
  let ?ex = "runtime_error ''OPENAI_API_KEY environment variable not set.''"
  have e: "extract_int 3 \<lparr>buf = ?stdin, eofbit = False, failbit = False\<rparr>
      = (1, \<lparr>buf = eol @ ?text @ eol @ eol, eofbit = False, failbit = False\<rparr>)"
    by (simp add: extract_int_def good_def isspace_def isdigit_def eol_def Let_def
          digits_value_def digit_value_def INT_MIN_def INT_MAX_def)
  have i: "ignore_line \<lparr>buf = eol @ ?text @ eol @ eol, eofbit = False, failbit = False\<rparr>
      = stdin_lines [?text, []]"
    by (simp add: ignore_line_def good_def not_newline_def eol_def stdin_lines_def)
  have g: "getline (stdin_lines [?text, []]) = (Some ?text, stdin_lines [[]])"
    by (rule getline_stdin_lines) simp
  have r: "read_continuation ?text (stdin_lines [[]]) = (?text, stdin_lines [[]])"
    by (subst read_continuation.simps) simp
  have rd: "read_study_text
        (ignore_line \<lparr>buf = eol @ ?text @ eol @ eol, eofbit = False, failbit = False\<rparr>)
      = Inr (?text, stdin_lines [[]])"
    unfolding i by (simp add: read_study_text_def g r)
  have s: "summarize_content offline_world ?text = Inl ?ex"
    by (simp add: summarize_content_def call_openai_chat_def offline_world_def)
  have w: "what ?ex = ''OPENAI_API_KEY environment variable not set.''"
    by (simp add: c_str_def)
  note T = main_always_exits_zero
    [of offline_world ?stdin "[]" ?ex 1
        "\<lparr>buf = eol @ ?text @ eol @ eol, eofbit = False, failbit = False\<rparr>"
        ?text "stdin_lines [[]]" "[]"]
  from T e rd s
  have "main offline_world ?stdin =
      (curl_global_init # menu @ paste_notice
         @ [Stderr (''Error: '' @ what ?ex @ eol), curl_global_cleanup], 0)"
    by blast
  moreover from T have "snd (main offline_world ?stdin) = 0" by blast
  ultimately show ?thesis unfolding w by simp
qed

end
